theory Spec2Isabelle
  imports Main "HOL-Library.AList" "HOL-Library.Char_ord" "HOL-Library.List_Lexorder"
begin

section \<open>The hierarchical store of hapi_server.py\<close>

text \<open>
  The server keeps a tree of \<^verbatim>\<open>Node\<close> objects inside one \<^verbatim>\<open>Storage\<close> object.
  The Python objects refer to each other through pointers (\<^verbatim>\<open>parent\<close>, \<^verbatim>\<open>children\<close>,
  \<^verbatim>\<open>_children_by_id\<close>, \<^verbatim>\<open>_root\<close>).  Ids are unique among the nodes a storage holds, so the
  embedding uses the id of a node as its address: the dictionary \<^verbatim>\<open>Storage._nodes\<close> is at
  once the id index and the object store, a reference to a node is its id, and \<^verbatim>\<open>n.id()\<close>
  on a reference is the reference itself.  A dictionary is an association list handled
  through \<open>map_of\<close>, \<open>AList.update\<close> and \<open>AList.delete\<close>.
\<close>

subsection \<open>Results, exceptions, lists\<close>

text \<open>
  A Python call returns a value or raises.  \<open>DanglingRef\<close> is not a Python exception: it
  marks a reference that does not resolve in the object store, which no Python object
  graph exhibits.  A loop that may run forever is a \<open>partial_function\<close> into \<open>option\<close>,
  with \<open>None\<close> for the run that never returns.
\<close>

datatype py_error =
  KeyError | ValueError | TypeError | AttributeError | UnboundLocalError | DanglingRef

datatype 'a res = Ret 'a | Exc py_error

text \<open>\<^verbatim>\<open>xs.index(x)\<close>: the first position of \<open>x\<close>; Python raises ValueError when there is none.\<close>

primrec index_of :: "'a list \<Rightarrow> 'a \<Rightarrow> nat option" where
  "index_of [] x = None"
| "index_of (y # ys) x = (if y = x then Some 0 else map_option Suc (index_of ys x))"

text \<open>\<^verbatim>\<open>xs.remove(x)\<close> under an equality test \<open>eq\<close>: drops the first element that is equal;
  Python raises ValueError when there is none.\<close>

primrec remove_first :: "('a \<Rightarrow> bool) \<Rightarrow> 'a list \<Rightarrow> 'a list option" where
  "remove_first eq [] = None"
| "remove_first eq (y # ys) =
     (if eq y then Some ys else map_option (Cons y) (remove_first eq ys))"

text \<open>\<^verbatim>\<open>xs.insert(i, x)\<close> for \<open>i \<ge> 0\<close>: a position beyond the end appends.\<close>

definition list_insert :: "'a list \<Rightarrow> nat \<Rightarrow> 'a \<Rightarrow> 'a list" where
  "list_insert xs i x = take i xs @ x # drop i xs"

text \<open>Python slices \<^verbatim>\<open>xs[i:j]\<close> and \<^verbatim>\<open>xs[i:j] = ys\<close> over integer bounds: a negative bound
  counts from the end, every bound is clamped to the list, and an upper bound below the
  lower one is raised to it.\<close>

definition slice_bound :: "nat \<Rightarrow> int \<Rightarrow> nat" where
  "slice_bound n i = (if i < 0 then nat (max 0 (i + int n)) else min (nat i) n)"

definition slice :: "'a list \<Rightarrow> int \<Rightarrow> int \<Rightarrow> 'a list" where
  "slice xs i j =
     (let lo = slice_bound (length xs) i; hi = slice_bound (length xs) j
      in take (hi - lo) (drop lo xs))"

definition slice_assign :: "'a list \<Rightarrow> int \<Rightarrow> int \<Rightarrow> 'a list \<Rightarrow> 'a list" where
  "slice_assign xs i j ys =
     (let lo = slice_bound (length xs) i; hi = max lo (slice_bound (length xs) j)
      in take lo xs @ ys @ drop hi xs)"

text \<open>\<^verbatim>\<open>list(OrderedDict.fromkeys(xs))\<close>: duplicates dropped, first occurrences kept in order.\<close>

primrec uniq :: "'a list \<Rightarrow> 'a list" where
  "uniq [] = []"
| "uniq (x # xs) = x # removeAll x (uniq xs)"

text \<open>Python truth of an optional string or list: \<^verbatim>\<open>None\<close> and the empty value are false.\<close>

definition truthy :: "'a list option \<Rightarrow> bool" where
  "truthy v = (case v of None \<Rightarrow> False | Some xs \<Rightarrow> xs \<noteq> [])"

subsection \<open>class Node\<close>

type_synonym nid = string

text \<open>
  The fields of a \<^verbatim>\<open>Node\<close>.  \<^verbatim>\<open>_id\<close> is the key under which the object is stored;
  \<open>children_by_id\<close> holds the keys of the dictionary \<^verbatim>\<open>_children_by_id\<close>, whose value at a
  key is the child with that id.
\<close>

record node =
  name :: string
  children_by_id :: "nid list"
  depth :: int
  children :: "nid list"
  parent :: "nid option"

type_synonym heap = "(nid \<times> node) list"

text \<open>\<^verbatim>\<open>Node(nid, name)\<close>\<close>

definition Node :: "string \<Rightarrow> node" where
  "Node nm = \<lparr>name = nm, children_by_id = [], depth = 0, children = [], parent = None\<rparr>"

text \<open>\<^verbatim>\<open>__eq__\<close> and \<^verbatim>\<open>__lt__\<close> compare names only; \<open>name_of\<close> reads the name behind a
  reference.\<close>

definition name_of :: "heap \<Rightarrow> nid \<Rightarrow> string" where
  "name_of h i = (case map_of h i of None \<Rightarrow> [] | Some n \<Rightarrow> name n)"

definition is_leaf :: "node \<Rightarrow> bool" where
  "is_leaf n = (children n = [])"

text \<open>\<^verbatim>\<open>last_preorder_child\<close>: down the last child until a node has none.\<close>

partial_function (option) last_preorder_child :: "heap \<Rightarrow> nid \<Rightarrow> nid res option" where
  [code]: "last_preorder_child h i =
     (case map_of h i of
        None \<Rightarrow> Some (Exc DanglingRef)
      | Some n \<Rightarrow> if children n = [] then Some (Ret i)
                  else last_preorder_child h (last (children n)))"

text \<open>\<^verbatim>\<open>preorder_predecessor\<close>: \<open>None\<close> for a node without parent, the parent for a first
  child, else the last pre-order node below the sibling to the left.  \<^verbatim>\<open>index(self)\<close>
  compares by name.\<close>

definition preorder_predecessor :: "heap \<Rightarrow> nid \<Rightarrow> nid option res option" where
  "preorder_predecessor h i =
     (case map_of h i of
        None \<Rightarrow> Some (Exc DanglingRef)
      | Some n \<Rightarrow>
          (case parent n of
             None \<Rightarrow> Some (Ret None)
           | Some p \<Rightarrow>
               (case map_of h p of
                  None \<Rightarrow> Some (Exc DanglingRef)
                | Some pn \<Rightarrow>
                    (case index_of (map (name_of h) (children pn)) (name n) of
                       None \<Rightarrow> Some (Exc ValueError)
                     | Some idx \<Rightarrow>
                         if idx = 0 then Some (Ret (Some p))
                         else (case last_preorder_child h (children pn ! (idx - 1)) of
                                 None \<Rightarrow> None
                               | Some (Exc e) \<Rightarrow> Some (Exc e)
                               | Some (Ret q) \<Rightarrow> Some (Ret (Some q)))))))"

text \<open>
  \<^verbatim>\<open>set_depth\<close> recurses over the children.  The model keeps the pending calls on a stack:
  the entry \<open>(i, d)\<close> is the call \<^verbatim>\<open>i.set_depth(d)\<close>, which writes the depth of \<open>i\<close> and
  then calls its children from left to right before any later entry runs.
\<close>

partial_function (option) set_depth_loop :: "heap \<Rightarrow> (nid \<times> int) list \<Rightarrow> (unit res \<times> heap) option" where
  [code]: "set_depth_loop h calls =
     (case calls of
        [] \<Rightarrow> Some (Ret (), h)
      | (i, d) # rest \<Rightarrow>
          (case map_of h i of
             None \<Rightarrow> Some (Exc DanglingRef, h)
           | Some n \<Rightarrow>
               set_depth_loop (AList.update i (n\<lparr>depth := d\<rparr>) h)
                 (map (\<lambda>c. (c, d + 1)) (children n) @ rest)))"

definition set_depth :: "heap \<Rightarrow> nid \<Rightarrow> int \<Rightarrow> (unit res \<times> heap) option" where
  "set_depth h i new_depth = set_depth_loop h [(i, new_depth)]"

text \<open>\<^verbatim>\<open>self.add_child(node)\<close> with \<open>self = p\<close> and \<open>node = c\<close>.  A node reference is never
  false, so only the name test can refuse.\<close>

definition add_child :: "heap \<Rightarrow> nid \<Rightarrow> nid \<Rightarrow> (bool res \<times> heap) option" where
  "add_child h p c =
     (case map_of h p of
        None \<Rightarrow> Some (Exc DanglingRef, h)
      | Some pn \<Rightarrow>
          if name_of h c \<in> set (map (name_of h) (children pn)) then Some (Ret False, h)
          else
            let h1 = AList.update p
                       (pn\<lparr>children := sort_key (name_of h) (children pn @ [c]),
                           children_by_id := (if c \<in> set (children_by_id pn) then children_by_id pn
                                              else children_by_id pn @ [c])\<rparr>) h
            in (case map_of h1 c of
                  None \<Rightarrow> Some (Exc DanglingRef, h1)
                | Some cn \<Rightarrow>
                    (case set_depth (AList.update c (cn\<lparr>parent := Some p\<rparr>) h1) c (depth pn + 1) of
                       None \<Rightarrow> None
                     | Some (Exc e, h2) \<Rightarrow> Some (Exc e, h2)
                     | Some (Ret u, h2) \<Rightarrow> Some (Ret True, h2))))"

text \<open>\<^verbatim>\<open>self.remove_child(nid, force)\<close> with \<open>self = p\<close>.  \<^verbatim>\<open>children.remove(node)\<close> compares
  by name.\<close>

definition remove_child :: "heap \<Rightarrow> nid \<Rightarrow> nid \<Rightarrow> bool \<Rightarrow> bool res \<times> heap" where
  "remove_child h p i force =
     (case map_of h p of
        None \<Rightarrow> (Exc DanglingRef, h)
      | Some pn \<Rightarrow>
          if i \<notin> set (children_by_id pn) then (Ret False, h)
          else (case map_of h i of
                  None \<Rightarrow> (Exc DanglingRef, h)
                | Some n \<Rightarrow>
                    if \<not> is_leaf n \<and> \<not> force then (Ret False, h)
                    else
                      let h1 = AList.update p (pn\<lparr>children_by_id := removeAll i (children_by_id pn)\<rparr>) h
                      in (case remove_first (\<lambda>c. name_of h c = name n) (children pn) of
                            None \<Rightarrow> (Exc ValueError, h1)
                          | Some cs \<Rightarrow>
                              (Ret True,
                               AList.update p (pn\<lparr>children_by_id := removeAll i (children_by_id pn),
                                                  children := cs\<rparr>) h))))"

subsection \<open>class Storage\<close>

record storage =
  nodes :: heap
  root :: "nid option"
  preorder :: "nid list"

text \<open>\<^verbatim>\<open>Storage()\<close>\<close>

definition Storage :: storage where
  "Storage = \<lparr>nodes = [], root = None, preorder = []\<rparr>"

text \<open>
  \<^verbatim>\<open>add(node, parent)\<close>.  The argument is \<open>None\<close> or a node as \<^verbatim>\<open>Node(nid, name)\<close> builds
  it, given by its id and name.  While \<^verbatim>\<open>add_child\<close> runs the new object is not yet in
  \<^verbatim>\<open>_nodes\<close>; the model stores it beforehand, and a refused \<^verbatim>\<open>add\<close> returns the old state.
  \<open>add_root\<close> is the branch \<^verbatim>\<open>if not parent\<close> (lines 135-142), \<open>add_under\<close> the branch
  \<^verbatim>\<open>else\<close> (lines 144-156).
\<close>

definition add_root :: "storage \<Rightarrow> nid \<Rightarrow> string \<Rightarrow> (bool res \<times> storage) option" where
  "add_root s i nm =
     (if nodes s \<noteq> [] then Some (Ret False, s)
      else (case set_depth (AList.update i (Node nm) (nodes s)) i 0 of
              None \<Rightarrow> None
            | Some (Exc e, h) \<Rightarrow> Some (Exc e, s\<lparr>nodes := h, root := Some i\<rparr>)
            | Some (Ret u, h) \<Rightarrow>
                Some (Ret True, s\<lparr>nodes := h, root := Some i, preorder := preorder s @ [i]\<rparr>)))"

definition add_under :: "storage \<Rightarrow> nid \<Rightarrow> string \<Rightarrow> nid \<Rightarrow> (bool res \<times> storage) option" where
  "add_under s i nm p =
     (case map_of (nodes s) p of
        None \<Rightarrow> Some (Ret False, s)
      | Some pn \<Rightarrow>
          (case add_child (AList.update i (Node nm) (nodes s)) p i of
             None \<Rightarrow> None
           | Some (Exc e, h) \<Rightarrow> Some (Exc e, s)
           | Some (Ret False, h) \<Rightarrow> Some (Ret False, s)
           | Some (Ret True, h) \<Rightarrow>
               (case preorder_predecessor h i of
                  None \<Rightarrow> None
                | Some (Exc e) \<Rightarrow> Some (Exc e, s\<lparr>nodes := h\<rparr>)
                | Some (Ret None) \<Rightarrow> Some (Exc AttributeError, s\<lparr>nodes := h\<rparr>)
                | Some (Ret (Some pred)) \<Rightarrow>
                    (case index_of (preorder s) pred of
                       None \<Rightarrow> Some (Exc ValueError, s\<lparr>nodes := h\<rparr>)
                     | Some k \<Rightarrow>
                         Some (Ret True,
                               s\<lparr>nodes := h, preorder := list_insert (preorder s) (k + 1) i\<rparr>)))))"

definition add :: "storage \<Rightarrow> (nid \<times> string) option \<Rightarrow> nid option \<Rightarrow> (bool res \<times> storage) option" where
  "add s node par =
     (case node of
        None \<Rightarrow> Some (Ret False, s)
      | Some (i, nm) \<Rightarrow>
          if map_of (nodes s) i \<noteq> None then Some (Ret False, s)
          else (case par of
                  None \<Rightarrow> add_root s i nm
                | Some p \<Rightarrow> if p = [] then add_root s i nm else add_under s i nm p))"

text \<open>\<^verbatim>\<open>delete(nid)\<close>\<close>

definition delete :: "storage \<Rightarrow> nid \<Rightarrow> bool res \<times> storage" where
  "delete s i =
     (case map_of (nodes s) i of
        None \<Rightarrow> (Ret False, s)
      | Some n \<Rightarrow>
          (case parent n of
             Some p \<Rightarrow>
               (case remove_child (nodes s) p i False of
                  (Exc e, h) \<Rightarrow> (Exc e, s\<lparr>nodes := h\<rparr>)
                | (Ret False, h) \<Rightarrow> (Ret False, s)
                | (Ret True, h) \<Rightarrow>
                    (case remove_first (\<lambda>x. x = i) (preorder s) of
                       None \<Rightarrow> (Exc ValueError, s\<lparr>nodes := AList.delete i h\<rparr>)
                     | Some pre \<Rightarrow> (Ret True, s\<lparr>nodes := AList.delete i h, preorder := pre\<rparr>)))
           | None \<Rightarrow>
               if length (nodes s) = 1 then (Ret True, s\<lparr>nodes := [], preorder := []\<rparr>)
               else (Ret False, s)))"

text \<open>The loop of \<^verbatim>\<open>move\<close> that walks from \<^verbatim>\<open>item\<close> up the parents and looks for \<open>i\<close>:
  \<open>True\<close> when it meets \<open>i\<close>, \<open>False\<close> when it runs off the root.\<close>

partial_function (option) ancestor_walk :: "heap \<Rightarrow> nid option \<Rightarrow> nid \<Rightarrow> bool res option" where
  [code]: "ancestor_walk h item i =
     (case item of
        None \<Rightarrow> Some (Ret False)
      | Some a \<Rightarrow>
          if a = i then Some (Ret True)
          else (case map_of h a of
                  None \<Rightarrow> Some (Exc DanglingRef)
                | Some an \<Rightarrow> ancestor_walk h (parent an) i))"

text \<open>The in-place exchange of the adjacent spans \<^verbatim>\<open>[a:b]\<close> and \<^verbatim>\<open>[b:c]\<close> (lines 229-237).\<close>

definition swap_spans :: "'a list \<Rightarrow> int \<Rightarrow> int \<Rightarrow> int \<Rightarrow> 'a list" where
  "swap_spans pre a b c =
     (let span1 = b - a; span2 = c - b in
      if span1 < span2 then
        let tmp = slice pre a b;
            pre1 = slice_assign pre a (a + span2) (slice pre b c)
        in slice_assign pre1 (c - span1) c tmp
      else
        let tmp = slice pre b c;
            pre1 = slice_assign pre (a + span2) c (slice pre a b)
        in slice_assign pre1 a (a + span2) tmp)"

text \<open>The update of the cached pre-order list at the end of \<^verbatim>\<open>move\<close> (lines 209-237), on
  the store \<open>h\<close> after the re-parenting.  When the new position is neither beyond the
  moved block nor before it, \<^verbatim>\<open>a\<close>, \<^verbatim>\<open>b\<close> and \<^verbatim>\<open>c\<close> are unbound and line 229 raises.\<close>

definition move_preorder :: "heap \<Rightarrow> nid list \<Rightarrow> nid \<Rightarrow> nid list res option" where
  "move_preorder h pre i =
     (case preorder_predecessor h i of
        None \<Rightarrow> None
      | Some (Exc e) \<Rightarrow> Some (Exc e)
      | Some (Ret None) \<Rightarrow> Some (Exc AttributeError)
      | Some (Ret (Some pred)) \<Rightarrow>
          (case index_of pre pred of
             None \<Rightarrow> Some (Exc ValueError)
           | Some k \<Rightarrow>
               let new_preorder_position = k + 1 in
               (case map_of h i of
                  None \<Rightarrow> Some (Exc DanglingRef)
                | Some target \<Rightarrow>
                    if is_leaf target then
                      (case remove_first (\<lambda>x. x = i) pre of
                         None \<Rightarrow> Some (Exc ValueError)
                       | Some pre1 \<Rightarrow> Some (Ret (list_insert pre1 new_preorder_position i)))
                    else
                      (case last_preorder_child h i of
                         None \<Rightarrow> None
                       | Some (Exc e) \<Rightarrow> Some (Exc e)
                       | Some (Ret node) \<Rightarrow>
                           (case index_of pre i of
                              None \<Rightarrow> Some (Exc ValueError)
                            | Some range_start \<Rightarrow>
                                (case index_of pre node of
                                   None \<Rightarrow> Some (Exc ValueError)
                                 | Some e \<Rightarrow>
                                     let range_size = int e - int range_start + 1 in
                                     if int new_preorder_position > int range_start + range_size then
                                       Some (Ret (swap_spans pre (int range_start)
                                                    (int range_start + range_size)
                                                    (int new_preorder_position)))
                                     else if new_preorder_position < range_start then
                                       Some (Ret (swap_spans pre (int new_preorder_position)
                                                    (int range_start)
                                                    (int range_start + range_size)))
                                     else Some (Exc UnboundLocalError)))))))"

text \<open>\<^verbatim>\<open>move(nid, to)\<close>.  The result of \<^verbatim>\<open>old_parent.remove_child(nid, True)\<close> is not looked
  at.\<close>

definition move :: "storage \<Rightarrow> nid \<Rightarrow> nid \<Rightarrow> (bool res \<times> storage) option" where
  "move s i to =
     (case map_of (nodes s) i of
        None \<Rightarrow> Some (Ret False, s)
      | Some target \<Rightarrow>
          (case map_of (nodes s) to of
             None \<Rightarrow> Some (Ret False, s)
           | Some tn \<Rightarrow>
               if i = to then Some (Ret False, s)
               else
                 (case parent target of
                    None \<Rightarrow> Some (Ret False, s)
                  | Some old_parent \<Rightarrow>
                      if old_parent = to then Some (Ret False, s)
                      else
                        (case ancestor_walk (nodes s) (parent tn) i of
                           None \<Rightarrow> None
                         | Some (Exc e) \<Rightarrow> Some (Exc e, s)
                         | Some (Ret True) \<Rightarrow> Some (Ret False, s)
                         | Some (Ret False) \<Rightarrow>
                             (case add_child (nodes s) to i of
                                None \<Rightarrow> None
                              | Some (Exc e, h) \<Rightarrow> Some (Exc e, s\<lparr>nodes := h\<rparr>)
                              | Some (Ret False, h) \<Rightarrow> Some (Ret False, s)
                              | Some (Ret True, h) \<Rightarrow>
                                  (case remove_child h old_parent i True of
                                     (Exc e, h1) \<Rightarrow> Some (Exc e, s\<lparr>nodes := h1\<rparr>)
                                   | (Ret b, h1) \<Rightarrow>
                                       (case move_preorder h1 (preorder s) i of
                                          None \<Rightarrow> None
                                        | Some (Exc e) \<Rightarrow> Some (Exc e, s\<lparr>nodes := h1\<rparr>)
                                        | Some (Ret pre) \<Rightarrow>
                                            Some (Ret True, s\<lparr>nodes := h1, preorder := pre\<rparr>))))))))"

text \<open>
  \<^verbatim>\<open>query(ids, names, roots, min_depth, max_depth)\<close>.  The result lists node references.
  \<open>select h P xs\<close> is the comprehension \<^verbatim>\<open>[self._nodes[x] for x in xs if P(self._nodes[x])]\<close>,
  which raises KeyError at an id that \<^verbatim>\<open>_nodes\<close> does not hold.
\<close>

primrec select :: "heap \<Rightarrow> (node \<Rightarrow> bool) \<Rightarrow> nid list \<Rightarrow> nid list res" where
  "select h P [] = Ret []"
| "select h P (x # xs) =
     (case map_of h x of
        None \<Rightarrow> Exc KeyError
      | Some n \<Rightarrow>
          (case select h P xs of
             Exc e \<Rightarrow> Exc e
           | Ret r \<Rightarrow> Ret (if P n then x # r else r)))"

text \<open>Python truth of an optional number: \<^verbatim>\<open>None\<close> and \<open>0\<close> are false.\<close>

definition nonzero :: "int option \<Rightarrow> bool" where
  "nonzero v = (case v of None \<Rightarrow> False | Some k \<Rightarrow> k \<noteq> 0)"

definition int_or :: "int option \<Rightarrow> int \<Rightarrow> int" where
  "int_or v d = (case v of None \<Rightarrow> d | Some k \<Rightarrow> if k = 0 then d else k)"

text \<open>The body of the loop over the roots (lines 295-306): the part of one root's subtree
  inside the depth window.\<close>

definition query_root :: "storage \<Rightarrow> int \<Rightarrow> int \<Rightarrow> nid \<Rightarrow> nid list res option" where
  "query_root s min_depth max_depth r =
     (case map_of (nodes s) r of
        None \<Rightarrow> Some (Exc DanglingRef)
      | Some rn \<Rightarrow>
          let dmin = min_depth + depth rn; dmax = max_depth + depth rn in
          (case root s of
             None \<Rightarrow> Some (Exc AttributeError)
           | Some the_root \<Rightarrow>
               if r = the_root then
                 Some (select (nodes s) (\<lambda>n. dmin \<le> depth n \<and> depth n \<le> dmax) (preorder s))
               else
                 (case index_of (preorder s) r of
                    None \<Rightarrow> Some (Exc ValueError)
                  | Some start \<Rightarrow>
                      (case last_preorder_child (nodes s) r of
                         None \<Rightarrow> None
                       | Some (Exc e) \<Rightarrow> Some (Exc e)
                       | Some (Ret l) \<Rightarrow>
                           (case index_of (preorder s) l of
                              None \<Rightarrow> Some (Exc ValueError)
                            | Some e \<Rightarrow>
                                Some (select (nodes s) (\<lambda>n. dmin \<le> depth n \<and> depth n \<le> dmax)
                                        (slice (preorder s) (int start) (int e + 1))))))))"

text \<open>\<^verbatim>\<open>for root in roots: ... result += subtree\<close>\<close>

fun query_roots :: "storage \<Rightarrow> int \<Rightarrow> int \<Rightarrow> nid list \<Rightarrow> nid list \<Rightarrow> nid list res option" where
  "query_roots s min_depth max_depth [] result = Some (Ret result)"
| "query_roots s min_depth max_depth (r # rs) result =
     (case query_root s min_depth max_depth r of
        None \<Rightarrow> None
      | Some (Exc e) \<Rightarrow> Some (Exc e)
      | Some (Ret subtree) \<Rightarrow> query_roots s min_depth max_depth rs (result @ subtree))"

definition query ::
  "storage \<Rightarrow> nid list option \<Rightarrow> string list option \<Rightarrow> nid list option \<Rightarrow> int option \<Rightarrow> int option
     \<Rightarrow> nid list res option" where
  "query s ids names roots min_depth max_depth =
     (if nodes s = [] \<or>
         (nonzero min_depth \<and> nonzero max_depth \<and> int_or max_depth 0 < int_or min_depth 0)
      then Some (Ret [])
      else
        let mn = int_or min_depth 0;
            mx = int_or max_depth (int (length (preorder s)));
            nms = (case names of None \<Rightarrow> [] | Some ns \<Rightarrow> uniq ns)
        in
        if truthy ids then
          (case select (nodes s) (\<lambda>n. True)
                  (filter (\<lambda>i. i \<in> set (uniq (case ids of None \<Rightarrow> [] | Some l \<Rightarrow> l))) (preorder s)) of
             Exc e \<Rightarrow> Some (Exc e)
           | Ret result \<Rightarrow>
               Some (Ret (if \<not> truthy names then result
                          else filter (\<lambda>i. name_of (nodes s) i \<in> set nms) result)))
        else if truthy names then
          Some (select (nodes s) (\<lambda>n. name n \<in> set nms) (preorder s))
        else if truthy roots then
          query_roots s mn mx
            (filter (\<lambda>i. map_of (nodes s) i \<noteq> None) (uniq (case roots of None \<Rightarrow> [] | Some l \<Rightarrow> l))) []
        else
          (case root s of
             None \<Rightarrow> Some (Exc AttributeError)
           | Some r \<Rightarrow> query_roots s mn mx [r] []))"

subsection \<open>The request handlers and the main loop\<close>

text \<open>
  A request line that parses is a JSON object; the model covers the objects whose values
  are parameter objects with string, string-list and integer fields.  A field that is
  absent or \<^verbatim>\<open>null\<close> is \<open>None\<close>.
\<close>

record body =
  b_id :: "string option"
  b_name :: "string option"
  b_parent_id :: "string option"
  b_new_parent_id :: "string option"
  b_ids :: "string list option"
  b_names :: "string list option"
  b_root_ids :: "string list option"
  b_min_depth :: "int option"
  b_max_depth :: "int option"

datatype line = Unparsable | Request "(string \<times> body) list"

datatype reply = Ok bool | Nodes "(nid \<times> string \<times> string) list"

definition add_node :: "storage \<Rightarrow> body \<Rightarrow> (bool res \<times> storage) option" where
  "add_node stg b =
     (case b_id b of
        None \<Rightarrow> Some (Ret False, stg)
      | Some i \<Rightarrow>
          if i = [] then Some (Ret False, stg)
          else (case b_name b of
                  None \<Rightarrow> Some (Ret False, stg)
                | Some nm \<Rightarrow>
                    if nm = [] then Some (Ret False, stg)
                    else add stg (Some (i, nm)) (b_parent_id b)))"

definition delete_node :: "storage \<Rightarrow> body \<Rightarrow> (bool res \<times> storage) option" where
  "delete_node stg b =
     (case b_id b of
        None \<Rightarrow> Some (Ret False, stg)
      | Some i \<Rightarrow> if i = [] then Some (Ret False, stg) else Some (delete stg i))"

definition move_node :: "storage \<Rightarrow> body \<Rightarrow> (bool res \<times> storage) option" where
  "move_node stg b =
     (case b_id b of
        None \<Rightarrow> Some (Ret False, stg)
      | Some i \<Rightarrow>
          if i = [] then Some (Ret False, stg)
          else (case b_new_parent_id b of
                  None \<Rightarrow> Some (Ret False, stg)
                | Some to \<Rightarrow>
                    if to = [] then Some (Ret False, stg)
                    else move stg i to))"

text \<open>The module-level \<^verbatim>\<open>query(stg, body)\<close>.\<close>

definition query_request :: "storage \<Rightarrow> body \<Rightarrow> (nid \<times> string \<times> string) list res option" where
  "query_request stg b =
     (case query stg (b_ids b) (b_names b) (b_root_ids b) (b_min_depth b) (b_max_depth b) of
        None \<Rightarrow> None
      | Some (Exc e) \<Rightarrow> Some (Exc e)
      | Some (Ret ns) \<Rightarrow>
          Some (Ret (map (\<lambda>i. (i, name_of (nodes stg) i,
                               (case map_of (nodes stg) i of
                                  None \<Rightarrow> []
                                | Some n \<Rightarrow> (case parent n of None \<Rightarrow> [] | Some p \<Rightarrow> p)))) ns)))"

text \<open>
  The names bound in the module besides the four handlers.  \<^verbatim>\<open>globals()[func](stg, body)\<close>
  raises KeyError for a name that is not bound, and TypeError for each of these: they are
  not callable, or do not take two arguments, or (\<^verbatim>\<open>Node\<close>) return what \<^verbatim>\<open>json.dumps\<close>
  refuses.
\<close>

definition other_globals :: "string list" where
  "other_globals =
     [''sys'', ''json'', ''traceback'', ''OrderedDict'', ''StringIO'', ''Node'', ''Storage'',
      ''main'', ''__builtins__'', ''__name__'', ''__doc__'', ''__file__'', ''__package__'']"

text \<open>One turn of the loop of \<^verbatim>\<open>main\<close> on a line that was read (lines 351-368): the line is
  skipped, or answered, or an exception leaves the loop and ends the process.\<close>

datatype turn = Skipped | Answered reply | Uncaught py_error

definition handle_line :: "storage \<Rightarrow> line \<Rightarrow> (turn \<times> storage) option" where
  "handle_line stg l =
     (case l of
        Unparsable \<Rightarrow> Some (Skipped, stg)
      | Request req \<Rightarrow>
          if req = [] \<or> length req > 1 then Some (Skipped, stg)
          else
            let func = fst (hd req); b = snd (hd req) in
            if func = ''add_node'' \<or> func = ''delete_node'' \<or> func = ''move_node'' then
              (case (if func = ''add_node'' then add_node stg b
                     else if func = ''delete_node'' then delete_node stg b
                     else move_node stg b) of
                 None \<Rightarrow> None
               | Some (Exc e, stg') \<Rightarrow> Some (Uncaught e, stg')
               | Some (Ret ok, stg') \<Rightarrow> Some (Answered (Ok ok), stg'))
            else if func = ''query'' then
              (case query_request stg b of
                 None \<Rightarrow> None
               | Some (Exc e) \<Rightarrow> Some (Uncaught e, stg)
               | Some (Ret ns) \<Rightarrow> Some (Answered (Nodes ns), stg))
            else if func \<in> set other_globals then Some (Uncaught TypeError, stg)
            else Some (Uncaught KeyError, stg))"

text \<open>\<^verbatim>\<open>main\<close> over the lines of the input up to its end: how the process ends, what it
  has written to the output, and the last state of the storage.\<close>

datatype ending = EndOfInput | Traceback py_error

fun main_loop :: "storage \<Rightarrow> line list \<Rightarrow> reply list \<Rightarrow> (ending \<times> reply list \<times> storage) option" where
  "main_loop stg [] out = Some (EndOfInput, out, stg)"
| "main_loop stg (l # ls) out =
     (case handle_line stg l of
        None \<Rightarrow> None
      | Some (Skipped, stg') \<Rightarrow> main_loop stg' ls out
      | Some (Answered r, stg') \<Rightarrow> main_loop stg' ls (out @ [r])
      | Some (Uncaught e, stg') \<Rightarrow> Some (Traceback e, out, stg'))"

definition main :: "line list \<Rightarrow> (ending \<times> reply list \<times> storage) option" where
  "main input = main_loop Storage input []"

subsection \<open>Runs of the storage\<close>

text \<open>A call of one of the three mutating operations, and a run of calls that all return
  (with \<^verbatim>\<open>True\<close> or \<^verbatim>\<open>False\<close>).  A store is reachable when such a run builds it from
  \<^verbatim>\<open>Storage()\<close>.\<close>

datatype op = Add nid string "nid option" | Delete nid | Move nid nid

definition apply_op :: "storage \<Rightarrow> op \<Rightarrow> (bool res \<times> storage) option" where
  "apply_op s x =
     (case x of
        Add i nm p \<Rightarrow> add s (Some (i, nm)) p
      | Delete i \<Rightarrow> Some (delete s i)
      | Move i to \<Rightarrow> move s i to)"

fun run :: "storage \<Rightarrow> op list \<Rightarrow> storage option" where
  "run s [] = Some s"
| "run s (x # xs) =
     (case apply_op s x of
        None \<Rightarrow> None
      | Some (Exc e, s') \<Rightarrow> None
      | Some (Ret b, s') \<Rightarrow> run s' xs)"

definition reachable :: "storage \<Rightarrow> bool" where
  "reachable s = (\<exists>ops. run Storage ops = Some s)"

subsection \<open>The tree behind a store\<close>

text \<open>The fields of the node behind a reference, and the parent relation (child, parent).\<close>

definition par :: "heap \<Rightarrow> nid \<Rightarrow> nid option" where
  "par h c = (case map_of h c of None \<Rightarrow> None | Some n \<Rightarrow> parent n)"

definition kids :: "heap \<Rightarrow> nid \<Rightarrow> nid list" where
  "kids h p = (case map_of h p of None \<Rightarrow> [] | Some n \<Rightarrow> children n)"

definition kids_by_id :: "heap \<Rightarrow> nid \<Rightarrow> nid list" where
  "kids_by_id h p = (case map_of h p of None \<Rightarrow> [] | Some n \<Rightarrow> children_by_id n)"

definition parent_rel :: "heap \<Rightarrow> (nid \<times> nid) set" where
  "parent_rel h = {(c, p). par h c = Some p}"

text \<open>At most one stored node has no parent.\<close>

definition single_root :: "heap \<Rightarrow> bool" where
  "single_root h =
     (\<forall>a b. map_of h a \<noteq> None \<and> map_of h b \<noteq> None \<and> par h a = None \<and> par h b = None \<longrightarrow> a = b)"

text \<open>
  The shape that every reachable store has: a node with a parent is listed among the
  children of that parent and nowhere else, siblings have different names, the two child
  containers of a node hold the same ids, the parent relation has no cycle, and there is
  at most one node without parent.
\<close>

definition tree_inv :: "heap \<Rightarrow> bool" where
  "tree_inv h =
     ((\<forall>c p. par h c = Some p \<longrightarrow> c \<in> set (kids h p)) \<and>
      (\<forall>p c. c \<in> set (kids h p) \<longrightarrow> par h c = Some p) \<and>
      (\<forall>p. distinct (map (name_of h) (kids h p))) \<and>
      (\<forall>p. set (kids_by_id h p) = set (kids h p)) \<and>
      acyclic (parent_rel h) \<and>
      single_root h)"

definition store_inv :: "storage \<Rightarrow> bool" where
  "store_inv s = (tree_inv (nodes s) \<and> (nodes s = [] \<longrightarrow> preorder s = []))"

text \<open>Two stores that differ in the cached depths at most.\<close>

definition same_tree :: "heap \<Rightarrow> heap \<Rightarrow> bool" where
  "same_tree h h' =
     (par h' = par h \<and> kids h' = kids h \<and> kids_by_id h' = kids_by_id h \<and>
      name_of h' = name_of h \<and> dom (map_of h') = dom (map_of h))"

text \<open>
  The pre-order listing of the tree by a full walk from the root: a node before its
  children, the children by ascending name.  \<open>todo\<close> holds the nodes still to visit.
\<close>

partial_function (option) walk_loop :: "heap \<Rightarrow> nid list \<Rightarrow> nid list \<Rightarrow> nid list option" where
  [code]: "walk_loop h todo acc =
     (case todo of
        [] \<Rightarrow> Some acc
      | i # rest \<Rightarrow>
          (case map_of h i of
             None \<Rightarrow> None
           | Some n \<Rightarrow> walk_loop h (sort_key (name_of h) (children n) @ rest) (acc @ [i])))"

definition tree_preorder :: "storage \<Rightarrow> nid list option" where
  "tree_preorder s =
     (if nodes s = [] then Some []
      else (case root s of None \<Rightarrow> None | Some r \<Rightarrow> walk_loop (nodes s) [r] []))"

text \<open>
  The pre-order listing of the subtree of \<open>r\<close>: the walk above started at \<open>r\<close> alone.
  \<open>walks h r xs\<close> says that the walk, wherever it meets \<open>r\<close>, lists \<open>xs\<close> and goes on with
  what was left to visit.
\<close>

definition listing :: "heap \<Rightarrow> nid \<Rightarrow> nid list" where
  "listing h r = (case walk_loop h [r] [] of None \<Rightarrow> [] | Some xs \<Rightarrow> xs)"

definition walks :: "heap \<Rightarrow> nid \<Rightarrow> nid list \<Rightarrow> bool" where
  "walks h r xs = (\<forall>rest acc. walk_loop h (r # rest) acc = walk_loop h rest (acc @ xs))"

text \<open>The nodes at or below \<open>r\<close>, and the lists of children kept in ascending order of names.\<close>

definition below :: "heap \<Rightarrow> nid \<Rightarrow> nid set" where
  "below h r = {x. (x, r) \<in> (parent_rel h)\<^sup>*}"

definition sorted_kids :: "heap \<Rightarrow> bool" where
  "sorted_kids h = (\<forall>p. sorted (map (name_of h) (kids h p)))"

text \<open>
  The cached depth of a node, and the test \<^verbatim>\<open>dmin <= node.depth() <= dmax\<close> that
  \<^verbatim>\<open>query\<close> applies to the node \<open>x\<close> in the turn of the root \<open>r\<close>, where
  \<^verbatim>\<open>dmin, dmax = min_depth + root.depth(), max_depth + root.depth()\<close> after the defaults
  \<open>0\<close> and \<^verbatim>\<open>len(self._preorder)\<close> have been put in.
\<close>

definition depth_of :: "heap \<Rightarrow> nid \<Rightarrow> int" where
  "depth_of h i = (case map_of h i of None \<Rightarrow> 0 | Some n \<Rightarrow> depth n)"

definition in_window :: "storage \<Rightarrow> int option \<Rightarrow> int option \<Rightarrow> nid \<Rightarrow> nid \<Rightarrow> bool" where
  "in_window s min_depth max_depth r x =
     (int_or min_depth 0 + depth_of (nodes s) r \<le> depth_of (nodes s) x \<and>
      depth_of (nodes s) x \<le> int_or max_depth (int (length (preorder s))) + depth_of (nodes s) r)"

text \<open>
  In a store that holds a node, \<^verbatim>\<open>_root\<close> refers to a stored node without parent.  Together
  with the tree invariant and the sorted lists of children this is the shape of every
  reachable store.
\<close>

definition well_rooted :: "storage \<Rightarrow> bool" where
  "well_rooted s =
     (nodes s \<noteq> [] \<longrightarrow>
        (\<exists>g. root s = Some g \<and> map_of (nodes s) g \<noteq> None \<and> par (nodes s) g = None))"

definition shape_inv :: "storage \<Rightarrow> bool" where
  "shape_inv s = (store_inv s \<and> sorted_kids (nodes s) \<and> well_rooted s)"

subsection \<open>Example stores\<close>

text \<open>A root \<open>r\<close> with the three leaves \<open>a\<close>, \<open>b\<close>, \<open>c\<close>.\<close>

definition leaf_store :: storage where
  "leaf_store =
     \<lparr>nodes =
        [(''1'', \<lparr>name = ''r'', children_by_id = [''2'', ''3'', ''4''], depth = 0,
                 children = [''2'', ''3'', ''4''], parent = None\<rparr>),
         (''2'', \<lparr>name = ''a'', children_by_id = [], depth = 1, children = [],
                 parent = Some ''1''\<rparr>),
         (''3'', \<lparr>name = ''b'', children_by_id = [], depth = 1, children = [],
                 parent = Some ''1''\<rparr>),
         (''4'', \<lparr>name = ''c'', children_by_id = [], depth = 1, children = [],
                 parent = Some ''1''\<rparr>)],
      root = Some ''1'', preorder = [''1'', ''2'', ''3'', ''4'']\<rparr>"

text \<open>A root \<open>r\<close> with the leaf \<open>a\<close> and the inner node \<open>b\<close>, which has the child \<open>c\<close>.\<close>

definition block_store :: storage where
  "block_store =
     \<lparr>nodes =
        [(''1'', \<lparr>name = ''r'', children_by_id = [''2'', ''3''], depth = 0,
                 children = [''2'', ''3''], parent = None\<rparr>),
         (''2'', \<lparr>name = ''a'', children_by_id = [], depth = 1, children = [],
                 parent = Some ''1''\<rparr>),
         (''3'', \<lparr>name = ''b'', children_by_id = [''4''], depth = 1, children = [''4''],
                 parent = Some ''1''\<rparr>),
         (''4'', \<lparr>name = ''c'', children_by_id = [], depth = 2, children = [],
                 parent = Some ''3''\<rparr>)],
      root = Some ''1'', preorder = [''1'', ''2'', ''3'', ''4'']\<rparr>"

text \<open>The store that holds the root \<open>r\<close> alone.\<close>

definition root_store :: storage where
  "root_store =
     \<lparr>nodes = [(''1'', \<lparr>name = ''r'', children_by_id = [], depth = 0, children = [],
                        parent = None\<rparr>)],
      root = Some ''1'', preorder = [''1'']\<rparr>"

text \<open>\<open>block_store\<close> after the leaf \<open>c\<close> has been moved below \<open>a\<close>.\<close>

definition moved_store :: storage where
  "moved_store =
     \<lparr>nodes =
        [(''1'', \<lparr>name = ''r'', children_by_id = [''2'', ''3''], depth = 0,
                 children = [''2'', ''3''], parent = None\<rparr>),
         (''2'', \<lparr>name = ''a'', children_by_id = [''4''], depth = 1, children = [''4''],
                 parent = Some ''1''\<rparr>),
         (''3'', \<lparr>name = ''b'', children_by_id = [], depth = 1, children = [],
                 parent = Some ''1''\<rparr>),
         (''4'', \<lparr>name = ''c'', children_by_id = [], depth = 2, children = [],
                 parent = Some ''2''\<rparr>)],
      root = Some ''1'', preorder = [''1'', ''2'', ''4'', ''3'']\<rparr>"

definition no_fields :: body where
  "no_fields =
     \<lparr>b_id = None, b_name = None, b_parent_id = None, b_new_parent_id = None, b_ids = None,
      b_names = None, b_root_ids = None, b_min_depth = None, b_max_depth = None\<rparr>"

section \<open>Properties\<close>

subsection \<open>The example stores are reachable\<close>

lemma root_store_run: "run Storage [Add ''1'' ''r'' None] = Some root_store"
  by code_simp

lemma leaf_store_run:
  "run Storage [Add ''1'' ''r'' None, Add ''2'' ''a'' (Some ''1''), Add ''3'' ''b'' (Some ''1''),
                Add ''4'' ''c'' (Some ''1'')] = Some leaf_store"
  by code_simp

lemma block_store_run:
  "run Storage [Add ''1'' ''r'' None, Add ''2'' ''a'' (Some ''1''), Add ''3'' ''b'' (Some ''1''),
                Add ''4'' ''c'' (Some ''3'')] = Some block_store"
  by code_simp

lemma root_store_reachable: "reachable root_store"
  unfolding reachable_def using root_store_run by blast

lemma leaf_store_reachable: "reachable leaf_store"
  unfolding reachable_def using leaf_store_run by blast

lemma block_store_reachable: "reachable block_store"
  unfolding reachable_def using block_store_run by blast

subsection \<open>Queries on an empty store\<close>

text \<open>
  C9.  On a store whose node index is empty, \<^verbatim>\<open>query\<close> returns the empty list for every
  \<^verbatim>\<open>ids\<close>, \<^verbatim>\<open>names\<close>, \<^verbatim>\<open>roots\<close>, \<^verbatim>\<open>min_depth\<close> and \<^verbatim>\<open>max_depth\<close>; it neither raises nor
  runs forever.
\<close>

theorem query_empty_store:
  "nodes s = [] \<Longrightarrow> query s ids names roots min_depth max_depth = Some (Ret [])"
  by (simp add: query_def)

theorem query_empty_store_witness:
  "nodes Storage = [] \<and>
   query Storage (Some [''1'']) (Some [''r'']) (Some [''1'']) (Some 1) (Some 2) = Some (Ret [])"
  using query_empty_store [of Storage "Some [''1'']" "Some [''r'']" "Some [''1'']" "Some 1" "Some 2"]
  by (simp add: Storage_def)

subsection \<open>Queries by roots that the store does not hold\<close>

lemma set_uniq: "set (uniq xs) = set xs"
  by (induction xs) auto

text \<open>
  C5 (as amended).  When \<^verbatim>\<open>query\<close> is called without \<^verbatim>\<open>ids\<close> and \<^verbatim>\<open>names\<close> and with a
  non-empty \<^verbatim>\<open>roots\<close> list in which every id is unknown, the unknown ids are dropped and the
  result is the empty list, whatever the depth bounds are: there is no fall-back to the
  global root.
\<close>

theorem query_unknown_roots:
  assumes "\<not> truthy ids" and "\<not> truthy names" and "rs \<noteq> []"
    and "\<forall>r\<in>set rs. map_of (nodes s) r = None"
  shows "query s ids names (Some rs) min_depth max_depth = Some (Ret [])"
proof -
  have "filter (\<lambda>i. map_of (nodes s) i \<noteq> None) (uniq rs) = []"
    using assms(4) by (simp add: filter_empty_conv set_uniq)
  then show ?thesis
    using assms(1-3) by (simp add: query_def truthy_def)
qed

theorem query_unknown_roots_witness:
  "\<not> truthy (None :: nid list option) \<and> \<not> truthy (Some ([] :: string list)) \<and>
   map_of (nodes root_store) ''8'' = None \<and> map_of (nodes root_store) ''9'' = None \<and>
   query root_store None (Some []) (Some [''9'', ''8'']) None (Some 3) = Some (Ret [])"
proof -
  have a: "\<not> truthy (None :: nid list option)" and b: "\<not> truthy (Some ([] :: string list))"
    by (simp_all add: truthy_def)
  have c: "map_of (nodes root_store) ''8'' = None" "map_of (nodes root_store) ''9'' = None"
    by (simp_all add: root_store_def)
  then have d: "\<forall>r\<in>set [''9'', ''8'']. map_of (nodes root_store) r = None"
    by simp
  show ?thesis
    using a b c query_unknown_roots [OF a b _ d, of None "Some 3"] by simp
qed

text \<open>On the store that holds the root \<open>1\<close> alone, the unknown root \<open>9\<close> gives the empty
  list, while the query without roots gives the root.\<close>

theorem query_unknown_roots_counterexample:
  "query root_store None None (Some [''9'']) None None = Some (Ret []) \<and>
   query root_store None None None None None = Some (Ret [''1''])"
  by code_simp

subsection \<open>Deleting the root\<close>

text \<open>
  C6 (as amended).  \<^verbatim>\<open>delete(id)\<close> on a stored node without parent succeeds exactly when
  that node is the only node in the store; on that success the id index and the pre-order
  list become empty, and the root reference is left as it was, still referring to the
  deleted node.  Otherwise it returns \<^verbatim>\<open>False\<close> and changes nothing.
\<close>

theorem delete_root:
  assumes "map_of (nodes s) i = Some n" and "parent n = None"
  shows "delete s i =
           (if nodes s = [(i, n)] then (Ret True, s\<lparr>nodes := [], preorder := []\<rparr>)
            else (Ret False, s))"
proof -
  have "length (nodes s) = 1 \<longleftrightarrow> nodes s = [(i, n)]"
  proof
    assume "length (nodes s) = 1"
    then obtain kv where "nodes s = [kv]"
      by (cases "nodes s") auto
    with assms(1) show "nodes s = [(i, n)]"
      by (cases kv) (auto split: if_splits)
  qed simp
  with assms show ?thesis
    by (simp add: delete_def)
qed

theorem delete_root_witness:
  "map_of (nodes root_store) ''1'' =
     Some \<lparr>name = ''r'', children_by_id = [], depth = 0, children = [], parent = None\<rparr> \<and>
   delete root_store ''1'' = (Ret True, \<lparr>nodes = [], root = Some ''1'', preorder = []\<rparr>)"
proof -
  let ?n = "\<lparr>name = ''r'', children_by_id = [], depth = 0, children = [], parent = None\<rparr>"
  have a: "map_of (nodes root_store) ''1'' = Some ?n"
    by (simp add: root_store_def)
  have b: "parent ?n = None" by simp
  show ?thesis
    using a delete_root [OF a b] by (simp add: root_store_def)
qed

text \<open>Deleting the only node succeeds and leaves the root reference at the deleted id.\<close>

theorem delete_root_counterexample:
  "fst (delete root_store ''1'') = Ret True \<and> root (snd (delete root_store ''1'')) = Some ''1''"
  by code_simp

subsection \<open>Queries by ids under inverted depth bounds\<close>

text \<open>
  C4.  A query with \<^verbatim>\<open>ids\<close> does not return the ids of the pre-order list that are among
  \<^verbatim>\<open>ids\<close> for every value of the depth bounds.  On the store that holds the root \<open>1\<close> alone
  the query for the id \<open>1\<close> returns that node without depth bounds, and the empty list with
  \<^verbatim>\<open>min_depth = 2\<close> and \<^verbatim>\<open>max_depth = 1\<close>: the test of line 270 comes before the branch on
  \<^verbatim>\<open>ids\<close>, where the docstring has the bounds ignored.
\<close>

theorem query_ids_inverted_depths:
  "query root_store (Some [''1'']) None None (Some 2) (Some 1) = Some (Ret []) \<and>
   query root_store (Some [''1'']) None None None None = Some (Ret [''1''])"
  by code_simp

subsection \<open>Moving a leaf to a later position\<close>

text \<open>
  C1.  The cached pre-order list is not the pre-order listing of the tree after every run
  of calls that return.  Four calls of \<^verbatim>\<open>add\<close> build the store with the root \<open>1\<close> and its
  leaves \<open>2\<close>, \<open>3\<close>, \<open>4\<close> (names \<open>a\<close>, \<open>b\<close>, \<open>c\<close>); moving the leaf \<open>2\<close> below \<open>3\<close> then
  succeeds, the tree lists as \<open>1, 3, 2, 4\<close>, and the cached list is \<open>1, 3, 4, 2\<close>, with \<open>4\<close>
  and not the moved leaf after its predecessor \<open>3\<close>: the position computed before
  \<^verbatim>\<open>remove\<close> is one too far once the leaf has been taken out in front of it.
\<close>

theorem move_leaf_later_misplaced:
  "run Storage [Add ''1'' ''r'' None, Add ''2'' ''a'' (Some ''1''), Add ''3'' ''b'' (Some ''1''),
                Add ''4'' ''c'' (Some ''1'')] = Some leaf_store \<and>
   map_option (\<lambda>(r, s). (r, preorder s, tree_preorder s)) (move leaf_store ''2'' ''3'') =
     Some (Ret True, [''1'', ''3'', ''4'', ''2''], Some [''1'', ''3'', ''2'', ''4''])"
  by code_simp

subsection \<open>Moving an inner node below its left neighbour\<close>

text \<open>
  C2.  Not every invocation that fails leaves the store unchanged: \<^verbatim>\<open>move\<close> can leave the
  re-parenting applied without reaching the re-splice.  Four calls of \<^verbatim>\<open>add\<close> build the
  store with the root \<open>1\<close>, its children \<open>2\<close> and \<open>3\<close>, and the child \<open>4\<close> of \<open>3\<close>; moving \<open>3\<close>
  below \<open>2\<close> then raises UnboundLocalError at line 229, after \<open>3\<close> has been re-parented from
  \<open>1\<close> to \<open>2\<close>.  (The calls that return \<^verbatim>\<open>False\<close> do leave the store unchanged, see the
  last subsection.)
\<close>

theorem move_block_unbound:
  "run Storage [Add ''1'' ''r'' None, Add ''2'' ''a'' (Some ''1''), Add ''3'' ''b'' (Some ''1''),
                Add ''4'' ''c'' (Some ''3'')] = Some block_store \<and>
   par (nodes block_store) ''3'' = Some ''1'' \<and>
   map_option (\<lambda>(r, s). (r, par (nodes s) ''3'', preorder s)) (move block_store ''3'' ''2'') =
     Some (Exc UnboundLocalError, Some ''2'', [''1'', ''2'', ''3'', ''4''])"
  by code_simp

subsection \<open>Request lines that end the process\<close>

text \<open>
  C8.  A request line can end the process before the end of the input.  A line whose
  single key is not bound in the module raises KeyError out of the loop, and the line
  after it is never read; the four \<^verbatim>\<open>add_node\<close> requests that build the store above,
  followed by the \<^verbatim>\<open>move_node\<close> request of \<open>3\<close> below \<open>2\<close>, end the process with
  UnboundLocalError after four answers.
\<close>

theorem main_dies:
  "main [Request [(''rename_node'', no_fields)], Request [(''query'', no_fields)]] =
     Some (Traceback KeyError, [], Storage) \<and>
   map_option (\<lambda>(e, out, s). (e, out))
     (main [Request [(''add_node'', no_fields\<lparr>b_id := Some ''1'', b_name := Some ''r''\<rparr>)],
            Request [(''add_node'', no_fields\<lparr>b_id := Some ''2'', b_name := Some ''a'',
                                               b_parent_id := Some ''1''\<rparr>)],
            Request [(''add_node'', no_fields\<lparr>b_id := Some ''3'', b_name := Some ''b'',
                                               b_parent_id := Some ''1''\<rparr>)],
            Request [(''add_node'', no_fields\<lparr>b_id := Some ''4'', b_name := Some ''c'',
                                               b_parent_id := Some ''3''\<rparr>)],
            Request [(''move_node'', no_fields\<lparr>b_id := Some ''3'', b_new_parent_id := Some ''2''\<rparr>)],
            Request [(''query'', no_fields)]]) =
     Some (Traceback UnboundLocalError, [Ok True, Ok True, Ok True, Ok True])"
  by code_simp

subsection \<open>The loop over the requested roots\<close>

lemma query_roots_loop_appends:
  "\<forall>x\<in>set xs. query_root s a b x = Some (Ret (g x)) \<Longrightarrow>
   query_roots s a b xs acc = Some (Ret (acc @ concat (map g xs)))"
  by (induction xs arbitrary: acc) simp_all

subsection \<open>The fields of a store under update and delete\<close>

lemma par_update: "par (AList.update k v h) = (par h)(k := parent v)"
  by (rule ext) (simp add: par_def update_conv')

lemma kids_update: "kids (AList.update k v h) = (kids h)(k := children v)"
  by (rule ext) (simp add: kids_def update_conv')

lemma kids_by_id_update: "kids_by_id (AList.update k v h) = (kids_by_id h)(k := children_by_id v)"
  by (rule ext) (simp add: kids_by_id_def update_conv')

lemma name_of_update: "name_of (AList.update k v h) = (name_of h)(k := name v)"
  by (rule ext) (simp add: name_of_def update_conv')

lemma dom_map_of_update: "dom (map_of (AList.update k v h)) = insert k (dom (map_of h))"
  by (simp add: update_conv')

lemma par_delete: "par (AList.delete k h) = (par h)(k := None)"
  by (rule ext) (simp add: par_def delete_conv')

lemma kids_delete: "kids (AList.delete k h) = (kids h)(k := [])"
  by (rule ext) (simp add: kids_def delete_conv')

lemma kids_by_id_delete: "kids_by_id (AList.delete k h) = (kids_by_id h)(k := [])"
  by (rule ext) (simp add: kids_by_id_def delete_conv')

lemma name_of_delete: "name_of (AList.delete k h) = (name_of h)(k := [])"
  by (rule ext) (simp add: name_of_def delete_conv')

lemma dom_map_of_delete: "dom (map_of (AList.delete k h)) = dom (map_of h) - {k}"
  by (simp add: delete_conv')

lemmas update_fields = par_update kids_update kids_by_id_update name_of_update dom_map_of_update
lemmas delete_fields = par_delete kids_delete kids_by_id_delete name_of_delete dom_map_of_delete

lemma fields_of:
  assumes "map_of h i = Some n"
  shows "par h i = parent n" "kids h i = children n" "kids_by_id h i = children_by_id n"
    "name_of h i = name n" "i \<in> dom (map_of h)"
  using assms by (simp_all add: par_def kids_def kids_by_id_def name_of_def dom_def)

lemma same_tree_refl: "same_tree h h"
  by (simp add: same_tree_def)

lemma same_tree_trans: "same_tree h h1 \<Longrightarrow> same_tree h1 h2 \<Longrightarrow> same_tree h h2"
  by (simp add: same_tree_def)

lemma same_tree_depth:
  assumes "map_of h i = Some n"
  shows "same_tree h (AList.update i (n\<lparr>depth := d\<rparr>) h)"
  using fields_of [OF assms]
  by (auto simp add: same_tree_def update_fields)

lemma set_depth_loop_same: "set_depth_loop h calls = Some y \<Longrightarrow> same_tree h (snd y)"
proof (induction rule: set_depth_loop.raw_induct [rotated 1, consumes 1])
  case (1 loop h calls y)
  show ?case
  proof (cases calls)
    case Nil
    with 1(2) show ?thesis
      by (auto simp add: same_tree_refl)
  next
    case (Cons c rest)
    obtain i d where c: "c = (i, d)"
      by (cases c)
    show ?thesis
    proof (cases "map_of h i")
      case None
      with 1(2) Cons c show ?thesis
        by (auto simp add: same_tree_refl)
    next
      case (Some n)
      with 1(2) Cons c
      have "loop (AList.update i (n\<lparr>depth := d\<rparr>) h) (map (\<lambda>c. (c, d + 1)) (children n) @ rest) = Some y"
        by simp
      then have "same_tree (AList.update i (n\<lparr>depth := d\<rparr>) h) (snd y)"
        by (rule 1(1))
      with same_tree_depth [OF Some] show ?thesis
        by (rule same_tree_trans)
    qed
  qed
qed

lemma set_depth_same: "set_depth h i d = Some (r, h') \<Longrightarrow> same_tree h h'"
  unfolding set_depth_def by (drule set_depth_loop_same) simp


lemma fields_sym:
  assumes "map_of h i = Some n"
  shows "parent n = par h i" "children n = kids h i" "children_by_id n = kids_by_id h i"
    "name n = name_of h i"
  using assms by (simp_all add: par_def kids_def kids_by_id_def name_of_def)

lemma add_child_False: "add_child h p c = Some (Ret False, h') \<Longrightarrow> h' = h"
  by (auto simp add: add_child_def Let_def split: option.splits if_splits res.splits)

lemma add_child_True:
  assumes "add_child h p c = Some (Ret True, h')"
  shows "map_of h p \<noteq> None" and "map_of h c \<noteq> None"
    and "name_of h c \<notin> set (map (name_of h) (kids h p))"
    and "par h' = (par h)(c := Some p)"
    and "kids h' = (kids h)(p := sort_key (name_of h) (kids h p @ [c]))"
    and "kids_by_id h' =
           (kids_by_id h)(p := (if c \<in> set (kids_by_id h p) then kids_by_id h p
                                else kids_by_id h p @ [c]))"
    and "name_of h' = name_of h" and "dom (map_of h') = dom (map_of h)"
proof -
  from assms obtain pn where pn: "map_of h p = Some pn"
    by (auto simp add: add_child_def split: option.splits)
  note fp = fields_sym [OF pn]
  from assms pn have nm: "name_of h c \<notin> set (map (name_of h) (children pn))"
    by (auto simp add: add_child_def split: if_splits)
  define h1 where
    "h1 = AList.update p
        (pn\<lparr>children := sort_key (name_of h) (children pn @ [c]),
            children_by_id := (if c \<in> set (children_by_id pn) then children_by_id pn
                               else children_by_id pn @ [c])\<rparr>) h"
  from assms pn nm obtain cn where cn: "map_of h1 c = Some cn"
    by (auto simp add: add_child_def h1_def Let_def split: option.splits)
  note fc = fields_sym [OF cn]
  define h2 where "h2 = AList.update c (cn\<lparr>parent := Some p\<rparr>) h1"
  from assms pn nm cn obtain u where "set_depth h2 c (depth pn + 1) = Some (Ret u, h')"
    by (auto simp add: add_child_def h1_def [symmetric] h2_def [symmetric] Let_def
        split: option.splits res.splits prod.splits)
  then have st: "same_tree h2 h'"
    by (rule set_depth_same)
  have f1: "par h1 = par h" "name_of h1 = name_of h"
    "kids h1 = (kids h)(p := sort_key (name_of h) (kids h p @ [c]))"
    "kids_by_id h1 =
       (kids_by_id h)(p := (if c \<in> set (kids_by_id h p) then kids_by_id h p
                            else kids_by_id h p @ [c]))"
    "dom (map_of h1) = dom (map_of h)"
    using fields_of(5) [OF pn] by (auto simp add: h1_def update_fields fp)
  have f2: "par h2 = (par h1)(c := Some p)" "name_of h2 = name_of h1" "kids h2 = kids h1"
    "kids_by_id h2 = kids_by_id h1" "dom (map_of h2) = dom (map_of h1)"
    using fields_of(5) [OF cn] by (auto simp add: h2_def update_fields fc)
  show "map_of h p \<noteq> None"
    using pn by simp
  show "map_of h c \<noteq> None"
    using fields_of(5) [OF cn] f1(5) by auto
  show "name_of h c \<notin> set (map (name_of h) (kids h p))"
    using nm by (simp add: fp)
  show "par h' = (par h)(c := Some p)"
    using st f1 f2 by (simp add: same_tree_def)
  show "kids h' = (kids h)(p := sort_key (name_of h) (kids h p @ [c]))"
    using st f1 f2 by (simp add: same_tree_def)
  show "kids_by_id h' =
           (kids_by_id h)(p := (if c \<in> set (kids_by_id h p) then kids_by_id h p
                                else kids_by_id h p @ [c]))"
    using st f1 f2 by (simp add: same_tree_def)
  show "name_of h' = name_of h"
    using st f1 f2 by (simp add: same_tree_def)
  show "dom (map_of h') = dom (map_of h)"
    using st f1 f2 by (simp add: same_tree_def)
qed

lemma remove_child_False: "remove_child h p i force = (Ret False, h') \<Longrightarrow> h' = h"
  by (auto simp add: remove_child_def Let_def split: option.splits if_splits)

lemma remove_child_True:
  assumes "remove_child h p i force = (Ret True, h')"
  shows "i \<in> set (kids_by_id h p)" and "force \<or> kids h i = []" and "map_of h i \<noteq> None"
    and "\<exists>cs. remove_first (\<lambda>c. name_of h c = name_of h i) (kids h p) = Some cs \<and>
              kids h' = (kids h)(p := cs)"
    and "kids_by_id h' = (kids_by_id h)(p := removeAll i (kids_by_id h p))"
    and "par h' = par h" and "name_of h' = name_of h" and "dom (map_of h') = dom (map_of h)"
proof -
  from assms obtain pn where pn: "map_of h p = Some pn"
    by (auto simp add: remove_child_def split: option.splits)
  note fp = fields_sym [OF pn]
  from assms pn have mem: "i \<in> set (children_by_id pn)"
    by (auto simp add: remove_child_def split: if_splits)
  from assms pn mem obtain n where n: "map_of h i = Some n"
    by (auto simp add: remove_child_def split: option.splits)
  note fi = fields_sym [OF n]
  from assms pn mem n have leaf: "force \<or> children n = []"
    by (auto simp add: remove_child_def is_leaf_def split: if_splits)
  from assms pn mem n leaf obtain cs
    where cs: "remove_first (\<lambda>c. name_of h c = name n) (children pn) = Some cs"
      and h': "h' = AList.update p (pn\<lparr>children_by_id := removeAll i (children_by_id pn),
                                        children := cs\<rparr>) h"
    by (auto simp add: remove_child_def is_leaf_def Let_def split: option.splits if_splits)
  show "i \<in> set (kids_by_id h p)"
    using mem by (simp add: fp)
  show "force \<or> kids h i = []"
    using leaf by (simp add: fi)
  show "map_of h i \<noteq> None"
    using n by simp
  show "\<exists>cs. remove_first (\<lambda>c. name_of h c = name_of h i) (kids h p) = Some cs \<and>
              kids h' = (kids h)(p := cs)"
    using cs by (auto simp add: h' update_fields fp fi)
  show "kids_by_id h' = (kids_by_id h)(p := removeAll i (kids_by_id h p))"
    by (simp add: h' update_fields fp)
  show "par h' = par h"
    by (simp add: h' update_fields fp)
  show "name_of h' = name_of h"
    by (simp add: h' update_fields fp)
  show "dom (map_of h') = dom (map_of h)"
    using fields_of(5) [OF pn] by (auto simp add: h' update_fields)
qed

subsection \<open>Lists of children\<close>

lemma remove_first_distinct:
  "i \<in> set xs \<Longrightarrow> distinct (map f xs) \<Longrightarrow>
   remove_first (\<lambda>c. f c = f i) xs = Some (remove1 i xs)"
  by (induction xs) (auto simp add: image_iff)

lemma distinct_map_insort_key:
  "distinct (map f (insort_key f x xs)) \<longleftrightarrow> f x \<notin> f ` set xs \<and> distinct (map f xs)"
  by (induction xs) (auto simp add: set_insort_key)

lemma distinct_map_sort_key: "distinct (map f (sort_key f xs)) \<longleftrightarrow> distinct (map f xs)"
  by (induction xs) (simp_all add: sort_key_simps distinct_map_insort_key)

lemma map_fun_upd_notin: "i \<notin> set xs \<Longrightarrow> map (f(i := v)) xs = map f xs"
  by (induction xs) auto


subsection \<open>The tree invariant is kept by the three operations\<close>

lemma single_root_dom:
  "single_root h \<longleftrightarrow>
     (\<forall>a b. a \<in> dom (map_of h) \<and> b \<in> dom (map_of h) \<and> par h a = None \<and> par h b = None \<longrightarrow> a = b)"
  by (auto simp add: single_root_def dom_def)

lemma par_None: "map_of h i = None \<Longrightarrow> par h i = None"
  by (simp add: par_def)

lemma kids_None: "map_of h i = None \<Longrightarrow> kids h i = []"
  by (simp add: kids_def)

lemma kids_by_id_None: "map_of h i = None \<Longrightarrow> kids_by_id h i = []"
  by (simp add: kids_by_id_def)

lemma tree_inv_add_under:
  assumes inv: "tree_inv h" and fresh: "map_of h i = None" and p: "map_of h p \<noteq> None"
    and ac: "add_child (AList.update i (Node nm) h) p i = Some (Ret True, h')"
  shows "tree_inv h'"
proof -
  let ?h0 = "AList.update i (Node nm) h"
  from inv have A: "\<And>c q. par h c = Some q \<Longrightarrow> c \<in> set (kids h q)"
    and B: "\<And>q c. c \<in> set (kids h q) \<Longrightarrow> par h c = Some q"
    and C: "\<And>q. distinct (map (name_of h) (kids h q))"
    and D: "\<And>q. set (kids_by_id h q) = set (kids h q)"
    and E: "acyclic (parent_rel h)"
    and F: "single_root h"
    unfolding tree_inv_def by blast+
  have Pi: "par h i = None" and Ki: "kids h i = []" and KBi: "kids_by_id h i = []"
    using fresh by (simp_all add: par_None kids_None kids_by_id_None)
  have pi: "p \<noteq> i"
    using p fresh by auto
  have notin: "i \<notin> set (kids h q)" for q
    using B [of i q] Pi by auto
  have nochild: "par h c \<noteq> Some i" for c
    using A [of c i] Ki by auto
  have f0: "par ?h0 = par h" "kids ?h0 = kids h" "kids_by_id ?h0 = kids_by_id h"
    "name_of ?h0 = (name_of h)(i := nm)" "dom (map_of ?h0) = insert i (dom (map_of h))"
    using Pi Ki KBi by (auto simp add: update_fields Node_def)
  note t = add_child_True [OF ac]
  have P': "par h' = (par h)(i := Some p)"
    using t(4) f0 by simp
  have N': "name_of h' = (name_of h)(i := nm)"
    using t(7) f0 by simp
  have K': "kids h' = (kids h)(p := sort_key (name_of h') (kids h p @ [i]))"
    using t(5) t(7) f0 by simp
  have KB': "kids_by_id h' =
      (kids_by_id h)(p := (if i \<in> set (kids_by_id h p) then kids_by_id h p else kids_by_id h p @ [i]))"
    using t(6) f0 by simp
  have dom': "dom (map_of h') = insert i (dom (map_of h))"
    using t(8) f0 by simp
  have newname: "name_of h' i \<notin> set (map (name_of h') (kids h p))"
    using t(3) t(7) f0 by simp
  have A': "c \<in> set (kids h' q)" if "par h' c = Some q" for c q
    using that A [of c q] nochild [of c] by (auto simp add: P' K' split: if_splits)
  have B': "par h' c = Some q" if "c \<in> set (kids h' q)" for c q
    using that B [of c q] notin [of q] pi by (auto simp add: P' K' split: if_splits)
  have C': "distinct (map (name_of h') (kids h' q))" for q
  proof (cases "q = p")
    case True
    have "distinct (map (name_of h') (kids h p))"
      using C [of p] notin [of p] by (simp add: N' map_fun_upd_notin)
    with newname True show ?thesis
      by (simp add: K' distinct_map_sort_key)
  next
    case False
    then show ?thesis
      using C [of q] notin [of q] by (simp add: K' N' map_fun_upd_notin)
  qed
  have D': "set (kids_by_id h' q) = set (kids h' q)" for q
    using D [of q] by (auto simp add: K' KB')
  have "parent_rel h' = insert (i, p) (parent_rel h)"
    using Pi by (auto simp add: parent_rel_def P' split: if_splits)
  moreover have "(p, i) \<notin> (parent_rel h)\<^sup>*"
  proof
    assume "(p, i) \<in> (parent_rel h)\<^sup>*"
    then show False
      using pi nochild by (cases rule: rtranclE) (auto simp add: parent_rel_def)
  qed
  ultimately have E': "acyclic (parent_rel h')"
    using E by simp
  have F': "single_root h'"
    using F by (auto simp add: single_root_dom dom' P' split: if_splits)
  from A' B' C' D' E' F' show ?thesis
    unfolding tree_inv_def by blast
qed

lemma tree_invD:
  assumes "tree_inv h"
  shows "\<And>c q. par h c = Some q \<Longrightarrow> c \<in> set (kids h q)"
    and "\<And>q c. c \<in> set (kids h q) \<Longrightarrow> par h c = Some q"
    and "\<And>q. distinct (map (name_of h) (kids h q))"
    and "\<And>q. set (kids_by_id h q) = set (kids h q)"
    and "acyclic (parent_rel h)"
    and "single_root h"
  using assms unfolding tree_inv_def by blast+

lemma tree_invI:
  assumes "\<And>c q. par h c = Some q \<Longrightarrow> c \<in> set (kids h q)"
    and "\<And>q c. c \<in> set (kids h q) \<Longrightarrow> par h c = Some q"
    and "\<And>q. distinct (map (name_of h) (kids h q))"
    and "\<And>q. set (kids_by_id h q) = set (kids h q)"
    and "acyclic (parent_rel h)"
    and "single_root h"
  shows "tree_inv h"
  using assms unfolding tree_inv_def by blast

lemma distinct_map_remove1: "distinct (map f xs) \<Longrightarrow> distinct (map f (remove1 x xs))"
  by (induction xs) (auto simp add: image_iff dest!: set_remove1_subset [THEN subsetD])

lemma kids_mem_dom: "c \<in> set (kids h p) \<Longrightarrow> map_of h p \<noteq> None"
  by (cases "map_of h p") (auto simp add: kids_def)

lemma par_Some_dom: "par h c = Some p \<Longrightarrow> map_of h c \<noteq> None"
  by (auto simp add: par_def split: option.splits)

lemma remove_child_False_cases:
  "remove_child h p i force = (Ret False, h') \<Longrightarrow>
     i \<notin> set (kids_by_id h p) \<or> (\<not> force \<and> kids h i \<noteq> [])"
  by (auto simp add: remove_child_def Let_def kids_by_id_def kids_def is_leaf_def
      split: option.splits if_splits)

text \<open>What a successful removal of a listed child does, under the invariant.\<close>

lemma remove_child_listed:
  assumes C: "distinct (map (name_of h) (kids h p))" and mem: "i \<in> set (kids h p)"
    and rc: "remove_child h p i force = (Ret True, h')"
  shows "kids h' = (kids h)(p := remove1 i (kids h p))"
proof -
  from remove_child_True(4) [OF rc] obtain cs
    where cs: "remove_first (\<lambda>c. name_of h c = name_of h i) (kids h p) = Some cs"
      and k: "kids h' = (kids h)(p := cs)"
    by blast
  from remove_first_distinct [OF mem C] cs have "cs = remove1 i (kids h p)"
    by simp
  with k show ?thesis
    by simp
qed

lemma tree_inv_delete:
  assumes inv: "tree_inv h" and pi: "par h i = Some p"
    and rc: "remove_child h p i False = (Ret True, h1)"
  shows "tree_inv (AList.delete i h1)" and "map_of (AList.delete i h1) p \<noteq> None"
proof -
  note I = tree_invD [OF inv]
  note t = remove_child_True [OF rc]
  have Ki: "kids h i = []"
    using t(2) by simp
  have mem: "i \<in> set (kids h p)"
    using I(1) [OF pi] .
  have p_ne: "p \<noteq> i"
    using mem Ki by auto
  have dist: "distinct (kids h p)"
    using I(3) [of p] by (simp add: distinct_map)
  let ?h' = "AList.delete i h1"
  have K1: "kids h1 = (kids h)(p := remove1 i (kids h p))"
    by (rule remove_child_listed [OF I(3) mem rc])
  have P': "par ?h' = (par h)(i := None)"
    by (simp add: delete_fields t(6))
  have K': "kids ?h' = (kids h)(p := remove1 i (kids h p), i := [])"
    by (simp add: delete_fields K1)
  have N': "name_of ?h' = (name_of h)(i := [])"
    by (simp add: delete_fields t(7))
  have KB': "kids_by_id ?h' = (kids_by_id h)(p := removeAll i (kids_by_id h p), i := [])"
    by (simp add: delete_fields t(5))
  have dom': "dom (map_of ?h') = dom (map_of h) - {i}"
    by (simp add: delete_fields t(8))
  have sub: "set (kids ?h' q) \<subseteq> set (kids h q) - {i}" for q
  proof (cases "q = p")
    case True
    then show ?thesis
      using p_ne by (simp add: K' set_remove1_eq [OF dist])
  next
    case False
    have "i \<notin> set (kids h q)"
      using I(2) [of i q] pi False by auto
    with False show ?thesis
      by (auto simp add: K')
  qed
  have A': "c \<in> set (kids ?h' q)" if "par ?h' c = Some q" for c q
  proof -
    from that have ci: "c \<noteq> i" and pc: "par h c = Some q"
      by (auto simp add: P' split: if_splits)
    from I(1) [OF pc] have cq: "c \<in> set (kids h q)" .
    with Ki have "q \<noteq> i"
      by auto
    with cq ci show ?thesis
      by (auto simp add: K')
  qed
  have B': "par ?h' c = Some q" if "c \<in> set (kids ?h' q)" for c q
  proof -
    from that sub [of q] have "c \<in> set (kids h q)" and "c \<noteq> i"
      by auto
    with I(2) [of c q] show ?thesis
      by (simp add: P')
  qed
  have C': "distinct (map (name_of ?h') (kids ?h' q))" for q
  proof -
    have "i \<notin> set (kids ?h' q)"
      using sub [of q] by auto
    then have eq: "map (name_of ?h') (kids ?h' q) = map (name_of h) (kids ?h' q)"
      by (simp add: N' map_fun_upd_notin)
    have "distinct (map (name_of h) (kids ?h' q))"
      using I(3) [of q] I(3) [of p] by (auto simp add: K' distinct_map_remove1)
    then show ?thesis
      unfolding eq .
  qed
  have D': "set (kids_by_id ?h' q) = set (kids ?h' q)" for q
    using I(4) [of q] I(4) [of p] by (auto simp add: K' KB' set_remove1_eq [OF dist])
  have "parent_rel ?h' \<subseteq> parent_rel h"
    by (auto simp add: parent_rel_def P' split: if_splits)
  with I(5) have E': "acyclic (parent_rel ?h')"
    by (rule acyclic_subset)
  have F': "single_root ?h'"
    using I(6) by (auto simp add: single_root_dom dom' P' split: if_splits)
  show "tree_inv ?h'"
    using A' B' C' D' E' F' by (rule tree_invI)
  have "p \<in> dom (map_of h)"
    using kids_mem_dom [OF mem] by auto
  with p_ne have "p \<in> dom (map_of ?h')"
    by (simp add: dom')
  then show "map_of ?h' p \<noteq> None"
    by auto
qed

lemma tree_inv_move:
  assumes inv: "tree_inv h" and pi: "par h i = Some old_parent" and ne: "old_parent \<noteq> to"
    and walk: "(to, i) \<notin> (parent_rel h)\<^sup>*"
    and ac: "add_child h to i = Some (Ret True, h1)"
    and rc: "remove_child h1 old_parent i True = (Ret b, h2)"
  shows "tree_inv h2"
proof -
  note I = tree_invD [OF inv]
  note t = add_child_True [OF ac]
  have mem: "i \<in> set (kids h old_parent)"
    using I(1) [OF pi] .
  have dist: "distinct (kids h old_parent)"
    using I(3) [of old_parent] by (simp add: distinct_map)
  have K1o: "kids h1 old_parent = kids h old_parent"
    and KB1o: "kids_by_id h1 old_parent = kids_by_id h old_parent"
    using ne by (simp_all add: t(5) t(6))
  have b: "b"
  proof (rule ccontr)
    assume "\<not> b"
    with rc have "remove_child h1 old_parent i True = (Ret False, h2)"
      by simp
    from remove_child_False_cases [OF this] show False
      using mem I(4) [of old_parent] by (simp add: KB1o)
  qed
  with rc have rc': "remove_child h1 old_parent i True = (Ret True, h2)"
    by simp
  note r = remove_child_True [OF rc']
  have "kids h2 = (kids h1)(old_parent := remove1 i (kids h1 old_parent))"
    using I(3) [of old_parent] mem
    by (intro remove_child_listed [OF _ _ rc']) (simp_all add: K1o t(7))
  then have K': "kids h2 = (kids h)(to := sort_key (name_of h) (kids h to @ [i]),
                                   old_parent := remove1 i (kids h old_parent))"
    using ne by (simp add: t(5))
  have P': "par h2 = (par h)(i := Some to)"
    by (simp add: r(6) t(4))
  have N': "name_of h2 = name_of h"
    by (simp add: r(7) t(7))
  have KB': "kids_by_id h2 =
      (kids_by_id h)(to := (if i \<in> set (kids_by_id h to) then kids_by_id h to
                            else kids_by_id h to @ [i]),
                     old_parent := removeAll i (kids_by_id h old_parent))"
    by (simp add: r(5) t(6) KB1o)
  have dom': "dom (map_of h2) = dom (map_of h)"
    by (simp add: r(8) t(8))
  have only: "q = old_parent" if "i \<in> set (kids h q)" for q
    using I(2) [OF that] pi by simp
  have A': "c \<in> set (kids h2 q)" if "par h2 c = Some q" for c q
  proof (cases "c = i")
    case True
    with that have "q = to"
      by (simp add: P')
    with True ne show ?thesis
      by (simp add: K')
  next
    case False
    with that have "par h c = Some q"
      by (simp add: P')
    from I(1) [OF this] False show ?thesis
      by (auto simp add: K' set_remove1_eq [OF dist])
  qed
  have B': "par h2 c = Some q" if "c \<in> set (kids h2 q)" for c q
  proof (cases "q = old_parent")
    case True
    with that have "c \<in> set (kids h old_parent)" and "c \<noteq> i"
      by (simp_all add: K' set_remove1_eq [OF dist])
    with I(2) [of c old_parent] True show ?thesis
      by (simp add: P')
  next
    case False
    show ?thesis
    proof (cases "c = i")
      case True
      with that False only [of q] have "q = to"
        by (auto simp add: K' split: if_splits)
      with True show ?thesis
        by (simp add: P')
    next
      case ci: False
      with that False have "c \<in> set (kids h q)"
        by (auto simp add: K' split: if_splits)
      with I(2) [of c q] ci show ?thesis
        by (simp add: P')
    qed
  qed
  have C': "distinct (map (name_of h2) (kids h2 q))" for q
  proof -
    have "distinct (map (name_of h) (kids h to @ [i]))"
      using I(3) [of to] t(3) by simp
    then have "distinct (map (name_of h) (sort_key (name_of h) (kids h to @ [i])))"
      by (simp only: distinct_map_sort_key)
    with I(3) [of q] I(3) [of old_parent] show ?thesis
      by (auto simp add: K' N' distinct_map_remove1 simp del: map_append)
  qed
  have D': "set (kids_by_id h2 q) = set (kids h2 q)" for q
    using I(4) [of q] I(4) [of to] I(4) [of old_parent]
    by (auto simp add: K' KB' set_remove1_eq [OF dist])
  have "parent_rel h2 = insert (i, to) (parent_rel h - {(i, old_parent)})"
    using pi by (auto simp add: parent_rel_def P' split: if_splits)
  moreover have "acyclic (parent_rel h - {(i, old_parent)})"
    using I(5) by (rule acyclic_subset) auto
  moreover have "(to, i) \<notin> (parent_rel h - {(i, old_parent)})\<^sup>*"
    using walk rtrancl_mono [of "parent_rel h - {(i, old_parent)}" "parent_rel h"] by auto
  ultimately have E': "acyclic (parent_rel h2)"
    by simp
  have F': "single_root h2"
    using I(6) pi by (auto simp add: single_root_dom dom' P' split: if_splits)
  show ?thesis
    using A' B' C' D' E' F' by (rule tree_invI)
qed

lemma ancestor_walk_False:
  "ancestor_walk h item i = Some y \<Longrightarrow> y = Ret False \<longrightarrow> (\<forall>a. item = Some a \<longrightarrow> (a, i) \<notin> (parent_rel h)\<^sup>*)"
proof (induction rule: ancestor_walk.raw_induct [rotated 1, consumes 1])
  case (1 walk h item i y)
  show ?case
  proof (intro impI allI)
    fix a
    assume y: "y = Ret False" and item: "item = Some a"
    from 1(2) y item have ai: "a \<noteq> i"
      by (auto split: if_splits)
    with 1(2) y item obtain an where an: "map_of h a = Some an"
      and rec: "walk h (parent an) i = Some y"
      by (auto split: option.splits)
    from 1(1) [OF rec] y have IH: "\<forall>b. parent an = Some b \<longrightarrow> (b, i) \<notin> (parent_rel h)\<^sup>*"
      by simp
    show "(a, i) \<notin> (parent_rel h)\<^sup>*"
    proof
      assume "(a, i) \<in> (parent_rel h)\<^sup>*"
      then show False
      proof (cases rule: converse_rtranclE)
        case base
        with ai show False by simp
      next
        case (step b)
        then have "parent an = Some b"
          using an by (simp add: parent_rel_def par_def)
        with IH step show False
          by simp
      qed
    qed
  qed
qed

lemma ancestor_walk_True:
  "(a, i) \<in> (parent_rel h)\<^sup>* \<Longrightarrow> ancestor_walk h (Some a) i = Some (Ret True)"
proof (induction rule: converse_rtrancl_induct)
  case base
  show ?case
    by (subst ancestor_walk.simps) simp
next
  case (step a b)
  from step(1) obtain an where "map_of h a = Some an" "parent an = Some b"
    by (auto simp add: parent_rel_def par_def split: option.splits)
  with step(3) show ?case
    by (subst ancestor_walk.simps) simp
qed

lemma set_depth_fresh:
  "set_depth [(i, Node nm)] i 0 = Some (Ret (), [(i, Node nm)])"
  unfolding set_depth_def
  by (subst set_depth_loop.simps, simp add: Node_def, subst set_depth_loop.simps, simp)

lemma add_root_empty:
  "nodes s = [] \<Longrightarrow>
   add_root s i nm =
     Some (Ret True, s\<lparr>nodes := [(i, Node nm)], root := Some i, preorder := preorder s @ [i]\<rparr>)"
  by (simp add: add_root_def set_depth_fresh)

lemma add_root_nonempty: "nodes s \<noteq> [] \<Longrightarrow> add_root s i nm = Some (Ret False, s)"
  by (simp add: add_root_def)

lemma tree_inv_Nil: "tree_inv []"
  by (simp add: tree_inv_def par_def kids_def kids_by_id_def parent_rel_def single_root_def
      acyclic_def)

lemma tree_inv_single: "tree_inv [(i, Node nm)]"
proof -
  have "parent_rel [(i, Node nm)] = {}"
    by (auto simp add: parent_rel_def par_def Node_def split: if_splits)
  then show ?thesis
    by (simp add: tree_inv_def par_def kids_def kids_by_id_def single_root_def Node_def
        acyclic_def)
qed

lemma add_under_cases:
  assumes "add_under s i nm p = Some (Ret b, s')"
  shows "(\<not> b \<and> s' = s) \<or>
         (b \<and> map_of (nodes s) p \<noteq> None \<and>
          (\<exists>h pre. add_child (AList.update i (Node nm) (nodes s)) p i = Some (Ret True, h) \<and>
                    s' = s\<lparr>nodes := h, preorder := pre\<rparr>))"
  using assms
  by (auto simp add: add_under_def split: option.splits res.splits prod.splits bool.splits)

lemma delete_cases:
  assumes "delete s i = (Ret b, s')"
  shows "(\<not> b \<and> s' = s) \<or>
         (b \<and> (\<exists>p h pre. par (nodes s) i = Some p \<and>
                  remove_child (nodes s) p i False = (Ret True, h) \<and>
                  s' = s\<lparr>nodes := AList.delete i h, preorder := pre\<rparr>)) \<or>
         (b \<and> s' = s\<lparr>nodes := [], preorder := []\<rparr>)"
  using assms
  by (auto simp add: delete_def par_def
      split: option.splits res.splits prod.splits bool.splits if_splits)

lemma move_cases:
  assumes "move s i to = Some (Ret b, s')"
  shows "(\<not> b \<and> s' = s) \<or>
         (b \<and> (\<exists>tn old_parent h1 h2 b' pre.
                  map_of (nodes s) to = Some tn \<and> i \<noteq> to \<and>
                  par (nodes s) i = Some old_parent \<and> old_parent \<noteq> to \<and>
                  ancestor_walk (nodes s) (parent tn) i = Some (Ret False) \<and>
                  add_child (nodes s) to i = Some (Ret True, h1) \<and>
                  remove_child h1 old_parent i True = (Ret b', h2) \<and>
                  s' = s\<lparr>nodes := h2, preorder := pre\<rparr>))"
  using assms
  by (auto simp add: move_def par_def
      split: option.splits res.splits prod.splits bool.splits if_splits)

lemma walk_not_ancestor:
  assumes "map_of h to = Some tn" and "i \<noteq> to"
    and "ancestor_walk h (parent tn) i = Some (Ret False)"
  shows "(to, i) \<notin> (parent_rel h)\<^sup>*"
proof
  assume "(to, i) \<in> (parent_rel h)\<^sup>*"
  then show False
  proof (cases rule: converse_rtranclE)
    case base
    with assms(2) show False by simp
  next
    case (step b)
    then have "parent tn = Some b"
      using assms(1) by (simp add: parent_rel_def par_def)
    with ancestor_walk_False [OF assms(3)] step show False
      by simp
  qed
qed

lemma heap_nonempty: "map_of h i \<noteq> None \<Longrightarrow> h \<noteq> []"
  by auto

lemma store_inv_add:
  assumes inv: "store_inv s" and op: "add s node pa = Some (Ret b, s')"
  shows "store_inv s'"
proof (cases node)
  case None
  with op inv show ?thesis
    by (simp add: add_def)
next
  case (Some a)
  obtain i nm where a: "a = (i, nm)"
    by (cases a)
  show ?thesis
  proof (cases "map_of (nodes s) i = None")
    case False
    with op inv Some a show ?thesis
      by (auto simp add: add_def)
  next
    case fresh: True
    from op Some a fresh
    consider (root) "add_root s i nm = Some (Ret b, s')"
      | (under) p where "add_under s i nm p = Some (Ret b, s')"
      by (auto simp add: add_def split: option.splits if_splits)
    then show ?thesis
    proof cases
      case root
      show ?thesis
      proof (cases "nodes s = []")
        case True
        from root add_root_empty [OF True, of i nm] show ?thesis
          by (auto simp add: store_inv_def tree_inv_single)
      next
        case False
        from root add_root_nonempty [OF False, of i nm] inv show ?thesis
          by simp
      qed
    next
      case under
      from add_under_cases [OF under] show ?thesis
      proof (elim disjE conjE exE)
        assume "s' = s"
        with inv show ?thesis by simp
      next
        fix h pre
        assume p: "map_of (nodes s) p \<noteq> None"
          and ac: "add_child (AList.update i (Node nm) (nodes s)) p i = Some (Ret True, h)"
          and s': "s' = s\<lparr>nodes := h, preorder := pre\<rparr>"
        from inv have "tree_inv (nodes s)"
          by (simp add: store_inv_def)
        then have "tree_inv h"
          using fresh p ac by (rule tree_inv_add_under)
        moreover have "h \<noteq> []"
          using add_child_True(1) [OF ac] add_child_True(8) [OF ac] by auto
        ultimately show ?thesis
          by (simp add: store_inv_def s')
      qed
    qed
  qed
qed

lemma store_inv_delete:
  assumes inv: "store_inv s" and op: "delete s i = (Ret b, s')"
  shows "store_inv s'"
  using delete_cases [OF op]
proof (elim disjE conjE exE)
  assume "s' = s"
  with inv show ?thesis by simp
next
  fix p h pre
  assume pi: "par (nodes s) i = Some p"
    and rc: "remove_child (nodes s) p i False = (Ret True, h)"
    and s': "s' = s\<lparr>nodes := AList.delete i h, preorder := pre\<rparr>"
  from inv have ti: "tree_inv (nodes s)"
    by (simp add: store_inv_def)
  from tree_inv_delete [OF ti pi rc]
  have "tree_inv (AList.delete i h)" and "AList.delete i h \<noteq> []"
    by auto
  then show ?thesis
    by (simp add: store_inv_def s')
next
  assume "s' = s\<lparr>nodes := [], preorder := []\<rparr>"
  then show ?thesis
    by (simp add: store_inv_def tree_inv_Nil)
qed

lemma store_inv_move:
  assumes inv: "store_inv s" and op: "move s i to = Some (Ret b, s')"
  shows "store_inv s'"
  using move_cases [OF op]
proof (elim disjE conjE exE)
  assume "s' = s"
  with inv show ?thesis by simp
next
  fix tn old_parent h1 h2 b' pre
  assume to: "map_of (nodes s) to = Some tn" and ne: "i \<noteq> to"
    and pi: "par (nodes s) i = Some old_parent" and po: "old_parent \<noteq> to"
    and walk: "ancestor_walk (nodes s) (parent tn) i = Some (Ret False)"
    and ac: "add_child (nodes s) to i = Some (Ret True, h1)"
    and rc: "remove_child h1 old_parent i True = (Ret b', h2)"
    and s': "s' = s\<lparr>nodes := h2, preorder := pre\<rparr>"
  from inv have ti: "tree_inv (nodes s)"
    by (simp add: store_inv_def)
  have "tree_inv h2"
    using ti pi po walk_not_ancestor [OF to ne walk] ac rc by (rule tree_inv_move)
  moreover have "dom (map_of h2) = dom (map_of (nodes s))"
  proof (cases b')
    case True
    with rc remove_child_True(8) [of h1 old_parent i True h2] add_child_True(8) [OF ac]
    show ?thesis by simp
  next
    case False
    with rc remove_child_False [of h1 old_parent i True h2] add_child_True(8) [OF ac]
    show ?thesis by simp
  qed
  then have "h2 \<noteq> []"
    using to by auto
  ultimately show ?thesis
    by (simp add: store_inv_def s')
qed

lemma store_inv_apply_op:
  "store_inv s \<Longrightarrow> apply_op s x = Some (Ret b, s') \<Longrightarrow> store_inv s'"
  by (cases x) (auto simp add: apply_op_def intro: store_inv_add store_inv_delete store_inv_move)

lemma store_inv_run: "store_inv s \<Longrightarrow> run s ops = Some s' \<Longrightarrow> store_inv s'"
proof (induction ops arbitrary: s)
  case Nil
  then show ?case by simp
next
  case (Cons x xs)
  from Cons.prems(2) obtain b s1 where "apply_op s x = Some (Ret b, s1)" "run s1 xs = Some s'"
    by (auto split: option.splits res.splits prod.splits)
  with Cons.IH [of s1] Cons.prems(1) show ?case
    by (auto dest: store_inv_apply_op)
qed

lemma store_inv_Storage: "store_inv Storage"
  by (simp add: store_inv_def Storage_def tree_inv_Nil)

lemma reachable_store_inv: "reachable s \<Longrightarrow> store_inv s"
  unfolding reachable_def using store_inv_run [OF store_inv_Storage] by blast

subsection \<open>What a move does to the parent relation, whatever its outcome\<close>

lemma add_child_any:
  assumes "add_child h p c = Some (r, h')"
  shows "dom (map_of h') = dom (map_of h)"
    and "par h' = par h \<or> par h' = (par h)(c := Some p)"
proof -
  have "dom (map_of h') = dom (map_of h) \<and> (par h' = par h \<or> par h' = (par h)(c := Some p))"
  proof (cases "map_of h p")
    case None
    with assms show ?thesis
      by (simp add: add_child_def)
  next
    case (Some pn)
    note fp = fields_sym [OF Some]
    show ?thesis
    proof (cases "name_of h c \<in> set (map (name_of h) (children pn))")
      case True
      with assms Some show ?thesis
        by (simp add: add_child_def)
    next
      case False
      define h1 where
        "h1 = AList.update p
            (pn\<lparr>children := sort_key (name_of h) (children pn @ [c]),
                children_by_id := (if c \<in> set (children_by_id pn) then children_by_id pn
                                   else children_by_id pn @ [c])\<rparr>) h"
      have f1: "par h1 = par h" "dom (map_of h1) = dom (map_of h)"
        using fields_of(5) [OF Some] by (auto simp add: h1_def update_fields fp)
      show ?thesis
      proof (cases "map_of h1 c")
        case None
        with assms Some False have "h' = h1"
          by (simp add: add_child_def h1_def [symmetric] Let_def)
        with f1 show ?thesis
          by simp
      next
        case cn: (Some cn)
        define h2 where "h2 = AList.update c (cn\<lparr>parent := Some p\<rparr>) h1"
        have f2: "par h2 = (par h1)(c := Some p)" "dom (map_of h2) = dom (map_of h1)"
          using fields_of(5) [OF cn] by (auto simp add: h2_def update_fields)
        from assms Some False cn obtain u where "set_depth h2 c (depth pn + 1) = Some (u, h')"
          by (auto simp add: add_child_def h1_def [symmetric] h2_def [symmetric] Let_def
              split: option.splits res.splits prod.splits)
        then have "same_tree h2 h'"
          by (rule set_depth_same)
        with f1 f2 show ?thesis
          by (simp add: same_tree_def)
      qed
    qed
  qed
  then show "dom (map_of h') = dom (map_of h)"
    and "par h' = par h \<or> par h' = (par h)(c := Some p)"
    by simp_all
qed

lemma remove_child_any:
  assumes "remove_child h p i force = (r, h')"
  shows "par h' = par h" and "dom (map_of h') = dom (map_of h)"
proof -
  have "par h' = par h \<and> dom (map_of h') = dom (map_of h)"
  proof (cases "map_of h p")
    case None
    with assms show ?thesis
      by (simp add: remove_child_def)
  next
    case (Some pn)
    note fp = fields_sym [OF Some]
    from assms Some
    consider "h' = h"
      | "h' = AList.update p (pn\<lparr>children_by_id := removeAll i (children_by_id pn)\<rparr>) h"
      | cs where "h' = AList.update p (pn\<lparr>children_by_id := removeAll i (children_by_id pn),
                                            children := cs\<rparr>) h"
      by (auto simp add: remove_child_def Let_def split: option.splits if_splits)
    then show ?thesis
      using fields_of(5) [OF Some] by cases (auto simp add: update_fields fp)
  qed
  then show "par h' = par h" and "dom (map_of h') = dom (map_of h)"
    by simp_all
qed

lemma move_any:
  assumes "move s i to = Some (r, s')"
  shows "nodes s' = nodes s \<or>
         (\<exists>tn old_parent r1 h1.
            map_of (nodes s) to = Some tn \<and> i \<noteq> to \<and>
            par (nodes s) i = Some old_parent \<and> old_parent \<noteq> to \<and>
            ancestor_walk (nodes s) (parent tn) i = Some (Ret False) \<and>
            add_child (nodes s) to i = Some (r1, h1) \<and>
            (nodes s' = h1 \<or> (\<exists>r2. remove_child h1 old_parent i True = (r2, nodes s'))))"
  using assms
  by (auto simp add: move_def par_def
      split: option.splits res.splits prod.splits bool.splits if_splits)

lemma move_par:
  assumes "move s i to = Some (r, s')"
  shows "dom (map_of (nodes s')) = dom (map_of (nodes s))"
    and "par (nodes s') = par (nodes s) \<or>
         (par (nodes s') = (par (nodes s))(i := Some to) \<and> par (nodes s) i \<noteq> None \<and>
          (to, i) \<notin> (parent_rel (nodes s))\<^sup>*)"
proof -
  let ?goal = "dom (map_of (nodes s')) = dom (map_of (nodes s)) \<and>
     (par (nodes s') = par (nodes s) \<or>
         (par (nodes s') = (par (nodes s))(i := Some to) \<and> par (nodes s) i \<noteq> None \<and>
          (to, i) \<notin> (parent_rel (nodes s))\<^sup>*))"
  from move_any [OF assms] have ?goal
  proof (elim disjE exE conjE)
    assume "nodes s' = nodes s"
    then show ?goal by simp
  next
    fix tn old_parent r1 h1
    assume to: "map_of (nodes s) to = Some tn" and ne: "i \<noteq> to"
      and pi: "par (nodes s) i = Some old_parent"
      and walk: "ancestor_walk (nodes s) (parent tn) i = Some (Ret False)"
      and ac: "add_child (nodes s) to i = Some (r1, h1)"
      and s': "nodes s' = h1"
    from add_child_any [OF ac] pi walk_not_ancestor [OF to ne walk] show ?goal
      by (auto simp add: s')
  next
    fix tn old_parent r1 h1 r2
    assume to: "map_of (nodes s) to = Some tn" and ne: "i \<noteq> to"
      and pi: "par (nodes s) i = Some old_parent"
      and walk: "ancestor_walk (nodes s) (parent tn) i = Some (Ret False)"
      and ac: "add_child (nodes s) to i = Some (r1, h1)"
      and rc: "remove_child h1 old_parent i True = (r2, nodes s')"
    from add_child_any [OF ac] remove_child_any [OF rc] pi walk_not_ancestor [OF to ne walk]
    show ?goal
      by auto
  qed
  then show "dom (map_of (nodes s')) = dom (map_of (nodes s))"
    and "par (nodes s') = par (nodes s) \<or>
         (par (nodes s') = (par (nodes s))(i := Some to) \<and> par (nodes s) i \<noteq> None \<and>
          (to, i) \<notin> (parent_rel (nodes s))\<^sup>*)"
    by simp_all
qed

lemma acyclic_reparent:
  assumes "acyclic (parent_rel h)" and "(to, i) \<notin> (parent_rel h)\<^sup>*"
    and "par h' = (par h)(i := Some to)"
  shows "acyclic (parent_rel h')"
proof -
  let ?r = "parent_rel h - {(i, p) | p. True}"
  have "parent_rel h' = insert (i, to) ?r"
    by (auto simp add: parent_rel_def assms(3) split: if_splits)
  moreover have "acyclic ?r"
    using assms(1) by (rule acyclic_subset) auto
  moreover have "(to, i) \<notin> ?r\<^sup>*"
    using assms(2) rtrancl_mono [of ?r "parent_rel h"] by auto
  ultimately show ?thesis
    by simp
qed

lemma move_keeps_acyclic:
  assumes "move s i to = Some (r, s')" and "acyclic (parent_rel (nodes s))"
    and "single_root (nodes s)"
  shows "acyclic (parent_rel (nodes s'))" and "single_root (nodes s')"
proof -
  note m = move_par [OF assms(1)]
  from m(2) show "acyclic (parent_rel (nodes s'))"
  proof
    assume "par (nodes s') = par (nodes s)"
    then have "parent_rel (nodes s') = parent_rel (nodes s)"
      by (simp add: parent_rel_def)
    with assms(2) show ?thesis by simp
  next
    assume "par (nodes s') = (par (nodes s))(i := Some to) \<and> par (nodes s) i \<noteq> None \<and>
          (to, i) \<notin> (parent_rel (nodes s))\<^sup>*"
    with assms(2) show ?thesis
      by (auto intro: acyclic_reparent)
  qed
  have d: "map_of (nodes s') a \<noteq> None \<longleftrightarrow> map_of (nodes s) a \<noteq> None" for a
    using m(1) by (metis domIff)
  show "single_root (nodes s')"
    unfolding single_root_def
  proof (intro allI impI)
    fix a b
    assume h: "map_of (nodes s') a \<noteq> None \<and> map_of (nodes s') b \<noteq> None \<and>
      par (nodes s') a = None \<and> par (nodes s') b = None"
    with d have "map_of (nodes s) a \<noteq> None" "map_of (nodes s) b \<noteq> None"
      by simp_all
    moreover from h m(2) have "par (nodes s) a = None" "par (nodes s) b = None"
      by (auto split: if_splits)
    ultimately show "a = b"
      using assms(3) unfolding single_root_def by blast
  qed
qed

lemma move_refused:
  assumes "to = i \<or> par (nodes s) i = Some to \<or> (to, i) \<in> (parent_rel (nodes s))\<^sup>+"
  shows "move s i to = Some (Ret False, s)"
proof (cases "map_of (nodes s) i")
  case None
  then show ?thesis
    by (simp add: move_def)
next
  case target: (Some target)
  show ?thesis
  proof (cases "map_of (nodes s) to")
    case None
    with target show ?thesis
      by (simp add: move_def)
  next
    case tn: (Some tn)
    show ?thesis
    proof (cases "to = i \<or> par (nodes s) i = Some to")
      case True
      with target tn show ?thesis
        by (auto simp add: move_def par_def split: option.splits)
    next
      case False
      with assms have "(to, i) \<in> (parent_rel (nodes s))\<^sup>+"
        by simp
      then obtain b where b: "(to, b) \<in> parent_rel (nodes s)"
        and rest: "(b, i) \<in> (parent_rel (nodes s))\<^sup>*"
        by (blast dest: tranclD)
      from b tn have "parent tn = Some b"
        by (simp add: parent_rel_def par_def)
      with ancestor_walk_True [OF rest]
      have "ancestor_walk (nodes s) (parent tn) i = Some (Ret True)"
        by simp
      with target tn show ?thesis
        by (simp add: move_def split: option.splits)
    qed
  qed
qed


text \<open>
  C3.  In every reachable store, \<^verbatim>\<open>move(id, new_parent_id)\<close> returns \<^verbatim>\<open>False\<close> and leaves
  the store unchanged whenever \<^verbatim>\<open>new_parent_id\<close> is the target itself, the target's
  current parent, or a node below the target (the target is among its ancestors in the
  parent relation); and after any move that comes back, whether it returns or raises, the
  parent relation is still acyclic and at most one node has no parent.
\<close>

theorem move_refuses_cycles:
  assumes "reachable s"
  shows "(to = i \<or> par (nodes s) i = Some to \<or> (to, i) \<in> (parent_rel (nodes s))\<^sup>+ \<longrightarrow>
            move s i to = Some (Ret False, s)) \<and>
         (\<forall>r s'. move s i to = Some (r, s') \<longrightarrow>
            acyclic (parent_rel (nodes s')) \<and> single_root (nodes s'))"
proof -
  from reachable_store_inv [OF assms] have "tree_inv (nodes s)"
    by (simp add: store_inv_def)
  then have "acyclic (parent_rel (nodes s))" and "single_root (nodes s)"
    by (rule tree_invD)+
  then show ?thesis
    using move_refused [of to i s] move_keeps_acyclic [of s i to] by blast
qed

theorem move_refuses_cycles_witness:
  "reachable block_store \<and> (''4'', ''3'') \<in> (parent_rel (nodes block_store))\<^sup>+ \<and>
   move block_store ''3'' ''4'' = Some (Ret False, block_store) \<and>
   move block_store ''4'' ''2'' = Some (Ret True, moved_store) \<and>
   acyclic (parent_rel (nodes moved_store)) \<and> single_root (nodes moved_store)"
proof -
  have "(''4'', ''3'') \<in> parent_rel (nodes block_store)"
    by (simp add: parent_rel_def par_def block_store_def)
  then have below: "(''4'', ''3'') \<in> (parent_rel (nodes block_store))\<^sup>+"
    by (rule r_into_trancl)
  have moved: "move block_store ''4'' ''2'' = Some (Ret True, moved_store)"
    by code_simp
  from move_refuses_cycles [OF block_store_reachable, of "''4''" "''3''"] below
  have "move block_store ''3'' ''4'' = Some (Ret False, block_store)"
    by blast
  moreover from move_refuses_cycles [OF block_store_reachable, of "''2''" "''4''"] moved
  have "acyclic (parent_rel (nodes moved_store)) \<and> single_root (nodes moved_store)"
    by blast
  ultimately show ?thesis
    using block_store_reachable below moved by blast
qed


subsection \<open>Adding without a parent\<close>

text \<open>
  C7.  In every reachable store, \<^verbatim>\<open>add\<close> of a node without a parent (the parent absent or
  the empty string) succeeds exactly when the store is empty: on the empty store the node
  becomes the root, with depth 0, and the pre-order list is the one-element list of its
  id; on a store that holds a node it returns \<^verbatim>\<open>False\<close> and changes nothing, as it does
  for a null node.  At most one stored node has no parent.
\<close>

theorem add_without_parent:
  assumes "reachable s" and "pa = None \<or> pa = Some []"
  shows "(nodes s = [] \<longrightarrow>
            add s (Some (i, nm)) pa =
              Some (Ret True,
                    \<lparr>nodes = [(i, \<lparr>name = nm, children_by_id = [], depth = 0, children = [],
                                    parent = None\<rparr>)],
                     root = Some i, preorder = [i]\<rparr>)) \<and>
         (nodes s \<noteq> [] \<longrightarrow> add s (Some (i, nm)) pa = Some (Ret False, s)) \<and>
         add s None pa = Some (Ret False, s) \<and>
         single_root (nodes s)"
proof -
  note inv = reachable_store_inv [OF assms(1)]
  have root: "add s (Some (i, nm)) pa =
      (if map_of (nodes s) i \<noteq> None then Some (Ret False, s) else add_root s i nm)"
    using assms(2) by (auto simp add: add_def)
  have "add s (Some (i, nm)) pa =
      Some (Ret True,
            \<lparr>nodes = [(i, \<lparr>name = nm, children_by_id = [], depth = 0, children = [],
                            parent = None\<rparr>)],
             root = Some i, preorder = [i]\<rparr>)" if empty: "nodes s = []"
  proof -
    from inv empty have "preorder s = []"
      by (simp add: store_inv_def)
    then have "s\<lparr>nodes := [(i, Node nm)], root := Some i, preorder := preorder s @ [i]\<rparr> =
        \<lparr>nodes = [(i, \<lparr>name = nm, children_by_id = [], depth = 0, children = [],
                         parent = None\<rparr>)],
         root = Some i, preorder = [i]\<rparr>"
      by (cases s) (simp add: Node_def)
    with empty show ?thesis
      by (simp add: root add_root_empty)
  qed
  moreover have "add s (Some (i, nm)) pa = Some (Ret False, s)" if "nodes s \<noteq> []"
    using that by (simp add: root add_root_nonempty)
  moreover have "add s None pa = Some (Ret False, s)"
    by (simp add: add_def)
  moreover have "single_root (nodes s)"
    using inv by (simp add: store_inv_def tree_invD)
  ultimately show ?thesis
    by blast
qed

theorem add_without_parent_witness:
  "reachable Storage \<and> reachable root_store \<and> nodes Storage = [] \<and> nodes root_store \<noteq> [] \<and>
   add Storage (Some (''1'', ''r'')) None = Some (Ret True, root_store) \<and>
   add root_store (Some (''2'', ''a'')) (Some []) = Some (Ret False, root_store) \<and>
   single_root (nodes root_store)"
proof -
  have r0: "reachable Storage"
    unfolding reachable_def by (rule exI [of _ "[]"]) simp
  have e: "nodes Storage = []" and ne: "nodes root_store \<noteq> []"
    by (simp_all add: Storage_def root_store_def)
  from add_without_parent [OF r0, of None "''1''" "''r''"] e
  have "add Storage (Some (''1'', ''r'')) None = Some (Ret True, root_store)"
    by (simp add: root_store_def)
  moreover from add_without_parent [OF root_store_reachable, of "Some []" "''2''" "''a''"] ne
  have "add root_store (Some (''2'', ''a'')) (Some []) = Some (Ret False, root_store)"
    and "single_root (nodes root_store)"
    by simp_all
  ultimately show ?thesis
    using r0 root_store_reachable e ne by blast
qed


subsection \<open>Calls that return False change nothing\<close>

lemma add_False_unchanged: "add s node pa = Some (Ret False, s') \<Longrightarrow> s' = s"
  by (auto simp add: add_def add_root_def add_under_def
      split: option.splits res.splits prod.splits bool.splits if_splits)

lemma delete_False_unchanged: "delete s i = (Ret False, s') \<Longrightarrow> s' = s"
  by (auto simp add: delete_def
      split: option.splits res.splits prod.splits bool.splits if_splits)

lemma move_False_unchanged: "move s i to = Some (Ret False, s') \<Longrightarrow> s' = s"
  by (auto simp add: move_def
      split: option.splits res.splits prod.splits bool.splits if_splits)

subsection \<open>The pre-order listing of a subtree\<close>

lemma walk_Nil: "walk_loop h [] acc = Some acc"
  by (subst walk_loop.simps) simp

lemma walk_step:
  "map_of h i = Some n \<Longrightarrow>
   walk_loop h (i # rest) acc =
     walk_loop h (sort_key (name_of h) (children n) @ rest) (acc @ [i])"
  by (subst walk_loop.simps) simp

lemma walks_listing: "walks h r xs \<Longrightarrow> listing h r = xs"
  by (simp add: walks_def listing_def walk_Nil)

lemma walk_many:
  "\<forall>c\<in>set cs. walks h c (L c) \<Longrightarrow>
   walk_loop h (cs @ rest) acc = walk_loop h rest (acc @ concat (map L cs))"
proof (induction cs arbitrary: acc)
  case Nil
  then show ?case by simp
next
  case (Cons c cs)
  from Cons.prems have "walks h c (L c)"
    by simp
  then have "walk_loop h ((c # cs) @ rest) acc = walk_loop h (cs @ rest) (acc @ L c)"
    unfolding walks_def by simp
  also have "\<dots> = walk_loop h rest ((acc @ L c) @ concat (map L cs))"
    using Cons.prems by (intro Cons.IH) simp
  finally show ?case
    by simp
qed

lemma finite_parent_rel: "finite (parent_rel h)"
proof -
  have "parent_rel h \<subseteq> (\<lambda>(k, n). (k, case parent n of None \<Rightarrow> k | Some p \<Rightarrow> p)) ` set h"
  proof
    fix e
    assume "e \<in> parent_rel h"
    then obtain c p n where e: "e = (c, p)" and n: "map_of h c = Some n" and p: "parent n = Some p"
      by (auto simp add: parent_rel_def par_def split: option.splits)
    from n have "(c, n) \<in> set h"
      by (rule map_of_SomeD)
    with e p show "e \<in> (\<lambda>(k, n). (k, case parent n of None \<Rightarrow> k | Some p \<Rightarrow> p)) ` set h"
      by force
  qed
  then show ?thesis
    by (rule finite_subset) simp
qed

lemma wf_parent_rel: "tree_inv h \<Longrightarrow> wf (parent_rel h)"
  by (simp add: finite_acyclic_wf finite_parent_rel tree_invD(5))

lemma wf_parent_rel_converse: "tree_inv h \<Longrightarrow> wf ((parent_rel h)\<inverse>)"
  by (simp add: finite_acyclic_wf_converse finite_parent_rel tree_invD(5))

lemma single_valued_parent_rel: "single_valued (parent_rel h)"
  by (auto simp add: single_valued_def parent_rel_def)

lemma parent_rel_kids:
  "tree_inv h \<Longrightarrow> (c, p) \<in> parent_rel h \<longleftrightarrow> c \<in> set (kids h p)"
  using tree_invD(1,2) [of h] unfolding parent_rel_def by blast

lemma below_unfold:
  assumes "tree_inv h"
  shows "below h r = insert r (\<Union>c\<in>set (kids h r). below h c)"
proof (rule set_eqI)
  fix x
  show "x \<in> below h r \<longleftrightarrow> x \<in> insert r (\<Union>c\<in>set (kids h r). below h c)"
  proof
    assume "x \<in> below h r"
    then have "(x, r) \<in> (parent_rel h)\<^sup>*"
      by (simp add: below_def)
    then show "x \<in> insert r (\<Union>c\<in>set (kids h r). below h c)"
    proof (cases rule: rtranclE)
      case base
      then show ?thesis by simp
    next
      case (step c)
      then show ?thesis
        using parent_rel_kids [OF assms] by (auto simp add: below_def)
    qed
  next
    assume "x \<in> insert r (\<Union>c\<in>set (kids h r). below h c)"
    then show "x \<in> below h r"
      using parent_rel_kids [OF assms] by (auto simp add: below_def intro: rtrancl_into_rtrancl)
  qed
qed

lemma siblings_disjoint:
  assumes inv: "tree_inv h" and c: "c \<in> set (kids h r)" and d: "d \<in> set (kids h r)"
    and ne: "c \<noteq> d"
  shows "below h c \<inter> below h d = {}"
proof (rule ccontr)
  assume "below h c \<inter> below h d \<noteq> {}"
  then obtain x where xc: "(x, c) \<in> (parent_rel h)\<^sup>*" and xd: "(x, d) \<in> (parent_rel h)\<^sup>*"
    by (auto simp add: below_def)
  have cr: "(c, r) \<in> parent_rel h" and dr: "(d, r) \<in> parent_rel h"
    using c d parent_rel_kids [OF inv] by simp_all
  have no: "(a, b) \<in> (parent_rel h)\<^sup>* \<Longrightarrow> (a, r) \<in> parent_rel h \<Longrightarrow> (b, r) \<in> parent_rel h
      \<Longrightarrow> a \<noteq> b \<Longrightarrow> False" for a b
  proof -
    assume ab: "(a, b) \<in> (parent_rel h)\<^sup>*" and ar: "(a, r) \<in> parent_rel h"
      and br: "(b, r) \<in> parent_rel h" and "a \<noteq> b"
    from ab \<open>a \<noteq> b\<close> obtain z where az: "(a, z) \<in> parent_rel h" and zb: "(z, b) \<in> (parent_rel h)\<^sup>*"
      by (auto elim: converse_rtranclE)
    from az ar have "z = r"
      using single_valued_parent_rel [of h] by (auto simp add: single_valued_def)
    with zb br have "(r, r) \<in> (parent_rel h)\<^sup>+"
      by (auto intro: rtrancl_into_trancl1)
    with tree_invD(5) [OF inv] show False
      by (auto simp add: acyclic_def)
  qed
  from single_valued_confluent [OF single_valued_parent_rel xc xd]
  show False
  proof
    assume "(c, d) \<in> (parent_rel h)\<^sup>*"
    from no [OF this cr dr ne] show False .
  next
    assume "(d, c) \<in> (parent_rel h)\<^sup>*"
    from no [OF this dr cr] ne show False by simp
  qed
qed

lemma not_below_child:
  assumes inv: "tree_inv h" and c: "c \<in> set (kids h r)"
  shows "r \<notin> below h c"
proof
  assume "r \<in> below h c"
  then have "(r, c) \<in> (parent_rel h)\<^sup>*"
    by (simp add: below_def)
  moreover have "(c, r) \<in> parent_rel h"
    using c parent_rel_kids [OF inv] by simp
  ultimately have "(r, r) \<in> (parent_rel h)\<^sup>+"
    by (auto intro: rtrancl_into_trancl1)
  with tree_invD(5) [OF inv] show False
    by (auto simp add: acyclic_def)
qed

lemma last_concat_map:
  assumes "cs \<noteq> []" and "L (last cs) \<noteq> []"
  shows "last (concat (map L cs)) = last (L (last cs))"
  using assms by (induction cs) (auto simp add: last_append)

lemma last_preorder_child_leaf:
  "map_of h r = Some n \<Longrightarrow> children n = [] \<Longrightarrow> last_preorder_child h r = Some (Ret r)"
  by (subst last_preorder_child.simps) simp

lemma last_preorder_child_inner:
  "map_of h r = Some n \<Longrightarrow> children n \<noteq> [] \<Longrightarrow>
   last_preorder_child h r = last_preorder_child h (last (children n))"
  by (subst last_preorder_child.simps) simp

lemma listing_props:
  assumes inv: "tree_inv h" and srt: "sorted_kids h"
  shows "map_of h r \<noteq> None \<Longrightarrow>
         walks h r (listing h r) \<and>
         listing h r = r # concat (map (listing h) (kids h r)) \<and>
         set (listing h r) = below h r \<and>
         distinct (listing h r) \<and>
         last_preorder_child h r = Some (Ret (last (listing h r)))"
proof (induction r rule: wf_induct_rule [OF wf_parent_rel [OF inv]])
  case (1 r)
  from 1(2) obtain n where n: "map_of h r = Some n"
    by auto
  let ?cs = "kids h r"
  let ?L = "listing h"
  have cs: "children n = ?cs"
    by (simp add: kids_def n)
  have sorted: "sort_key (name_of h) ?cs = ?cs"
    using srt by (simp add: sorted_kids_def sort_key_id_if_sorted)
  have IH: "walks h c (?L c) \<and> ?L c = c # concat (map ?L (kids h c)) \<and>
      set (?L c) = below h c \<and> distinct (?L c) \<and>
      last_preorder_child h c = Some (Ret (last (?L c)))" if "c \<in> set ?cs" for c
  proof -
    from that have "(c, r) \<in> parent_rel h"
      by (simp add: parent_rel_kids [OF inv])
    moreover from that have "map_of h c \<noteq> None"
      using tree_invD(2) [OF inv that] by (auto dest: par_Some_dom)
    ultimately show ?thesis
      by (rule 1(1))
  qed
  have IHw: "walks h c (?L c)" and IHs: "set (?L c) = below h c" and IHd: "distinct (?L c)"
    and IHp: "last_preorder_child h c = Some (Ret (last (?L c)))" if "c \<in> set ?cs" for c
    using IH [OF that] by blast+
  have w: "walks h r (r # concat (map ?L ?cs))"
    unfolding walks_def
  proof (intro allI)
    fix rest acc
    have "walk_loop h (r # rest) acc = walk_loop h (?cs @ rest) (acc @ [r])"
      by (simp add: walk_step [OF n] cs sorted)
    also have "\<dots> = walk_loop h rest ((acc @ [r]) @ concat (map ?L ?cs))"
      by (rule walk_many) (use IHw in blast)
    finally show "walk_loop h (r # rest) acc = walk_loop h rest (acc @ r # concat (map ?L ?cs))"
      by simp
  qed
  then have L: "?L r = r # concat (map ?L ?cs)"
    by (rule walks_listing)
  have S: "set (?L r) = below h r"
    by (simp add: L below_unfold [OF inv, of r] IHs)
  have hd: "?L c \<noteq> [] \<and> hd (?L c) = c" if "c \<in> set ?cs" for c
  proof -
    from IH [OF that] have "?L c = c # concat (map ?L (kids h c))"
      by blast
    then show ?thesis
      by (metis list.sel(1) list.simps(3))
  qed
  have D: "distinct (?L r)"
  proof -
    have "r \<notin> set (concat (map ?L ?cs))"
      using not_below_child [OF inv] IHs by auto
    moreover have "distinct (concat (map ?L ?cs))"
    proof (rule distinct_concat)
      have "distinct ?cs"
        using tree_invD(3) [OF inv, of r] by (simp add: distinct_map)
      moreover have "inj_on ?L (set ?cs)"
      proof (rule inj_onI)
        fix c d
        assume c: "c \<in> set ?cs" and d: "d \<in> set ?cs" and eq: "?L c = ?L d"
        have "c = hd (?L c)"
          using hd [OF c] by simp
        also have "\<dots> = hd (?L d)"
          by (simp only: eq)
        also have "\<dots> = d"
          using hd [OF d] by simp
        finally show "c = d" .
      qed
      ultimately show "distinct (map ?L ?cs)"
        by (simp add: distinct_map)
    next
      fix ys
      assume "ys \<in> set (map ?L ?cs)"
      then show "distinct ys"
        using IHd by auto
    next
      fix ys zs
      assume "ys \<in> set (map ?L ?cs)" and "zs \<in> set (map ?L ?cs)" and ne: "ys \<noteq> zs"
      then obtain c d where c: "c \<in> set ?cs" "ys = ?L c" and d: "d \<in> set ?cs" "zs = ?L d"
        by auto
      with ne have "c \<noteq> d"
        by blast
      from siblings_disjoint [OF inv c(1) d(1) this] show "set ys \<inter> set zs = {}"
        using IHs [OF c(1)] IHs [OF d(1)] c(2) d(2) by simp
    qed
    ultimately show ?thesis
      by (simp add: L)
  qed
  have P: "last_preorder_child h r = Some (Ret (last (?L r)))"
  proof (cases "?cs = []")
    case True
    with n cs have "last_preorder_child h r = Some (Ret r)"
      by (simp add: last_preorder_child_leaf)
    with True show ?thesis
      by (simp add: L)
  next
    case False
    then have mem: "last ?cs \<in> set ?cs"
      by simp
    from False n cs have "last_preorder_child h r = last_preorder_child h (last ?cs)"
      by (simp add: last_preorder_child_inner)
    also have "\<dots> = Some (Ret (last (?L (last ?cs))))"
      using IHp [OF mem] by simp
    also have "last (?L (last ?cs)) = last (concat (map ?L ?cs))"
      using False hd [OF mem] by (simp add: last_concat_map)
    also have "\<dots> = last (?L r)"
    proof -
      have "concat (map ?L ?cs) \<noteq> []"
        using mem hd [OF mem] by auto
      then have "last (r # concat (map ?L ?cs)) = last (concat (map ?L ?cs))"
        by (rule last_ConsR)
      then show ?thesis
        by (simp only: L)
    qed
    finally show ?thesis .
  qed
  from w have "walks h r (?L r)"
    by (simp only: L)
  with L S D P show ?case
    by blast
qed

subsection \<open>The slice of the cached list that a root selects\<close>

lemma below_root:
  assumes inv: "tree_inv h" and g: "map_of h g \<noteq> None" "par h g = None"
  shows "map_of h r \<noteq> None \<Longrightarrow> (r, g) \<in> (parent_rel h)\<^sup>*"
proof (induction r rule: wf_induct_rule [OF wf_parent_rel_converse [OF inv]])
  case (1 r)
  show ?case
  proof (cases "par h r")
    case None
    with 1(2) g tree_invD(6) [OF inv] have "r = g"
      unfolding single_root_def by blast
    then show ?thesis by simp
  next
    case (Some p)
    then have rp: "(r, p) \<in> parent_rel h"
      by (simp add: parent_rel_def)
    moreover have "map_of h p \<noteq> None"
      using tree_invD(1) [OF inv Some] by (rule kids_mem_dom)
    ultimately have "(p, g) \<in> (parent_rel h)\<^sup>*"
      by (intro 1(1)) simp_all
    with rp show ?thesis
      by (rule converse_rtrancl_into_rtrancl)
  qed
qed

lemma below_in_heap:
  assumes "map_of h r \<noteq> None" and "x \<in> below h r"
  shows "map_of h x \<noteq> None"
proof -
  from assms(2) have "(x, r) \<in> (parent_rel h)\<^sup>*"
    by (simp add: below_def)
  then show ?thesis
    using assms(1) by (cases rule: converse_rtranclE) (auto simp add: parent_rel_def dest: par_Some_dom)
qed

lemma listing_contains:
  assumes inv: "tree_inv h" and srt: "sorted_kids h"
  shows "(r, a) \<in> (parent_rel h)\<^sup>* \<Longrightarrow> \<exists>pre post. listing h a = pre @ listing h r @ post"
proof (induction rule: rtrancl_induct)
  case base
  have "listing h r = [] @ listing h r @ []"
    by simp
  then show ?case
    by blast
next
  case (step y z)
  then obtain pre post where y: "listing h y = pre @ listing h r @ post"
    by blast
  from step(2) have mem: "y \<in> set (kids h z)"
    by (simp add: parent_rel_kids [OF inv])
  then have "map_of h z \<noteq> None"
    by (rule kids_mem_dom)
  from listing_props [OF inv srt this]
  have z: "listing h z = z # concat (map (listing h) (kids h z))"
    by blast
  from mem obtain cs1 cs2 where "kids h z = cs1 @ y # cs2"
    by (auto dest: split_list)
  then have "concat (map (listing h) (kids h z)) =
      concat (map (listing h) cs1) @ listing h y @ concat (map (listing h) cs2)"
    by simp
  with z y have "listing h z =
      (z # concat (map (listing h) cs1) @ pre) @ listing h r @ (post @ concat (map (listing h) cs2))"
    by simp
  then show ?case
    by blast
qed

lemma index_of_append: "x \<notin> set ys \<Longrightarrow> index_of (ys @ x # zs) x = Some (length ys)"
  by (induction ys) auto

lemma slice_middle:
  "slice (pre @ X @ post) (int (length pre)) (int (length pre + length X)) = X"
  by (simp add: slice_def slice_bound_def Let_def)

lemma block_positions:
  assumes "distinct (pre @ X @ post)" and "X \<noteq> []"
  shows "index_of (pre @ X @ post) (hd X) = Some (length pre)"
    and "index_of (pre @ X @ post) (last X) = Some (length pre + length X - 1)"
proof -
  from assms(2) obtain x xs where X: "X = x # xs"
    by (cases X) auto
  with assms(1) have "x \<notin> set pre"
    by auto
  then have "index_of (pre @ x # (xs @ post)) x = Some (length pre)"
    by (rule index_of_append)
  then show "index_of (pre @ X @ post) (hd X) = Some (length pre)"
    by (simp add: X)
  from assms(2) have split: "X = butlast X @ [last X]"
    by simp
  with assms(1) have "distinct (pre @ (butlast X @ [last X]) @ post)"
    by simp
  then have "last X \<notin> set (pre @ butlast X)"
    by auto
  then have "index_of ((pre @ butlast X) @ last X # post) (last X) = Some (length (pre @ butlast X))"
    by (rule index_of_append)
  moreover have "(pre @ butlast X) @ last X # post = pre @ X @ post"
    using split by (metis append.assoc append_Cons append_Nil)
  moreover have "length (pre @ butlast X) = length pre + length X - 1"
    using assms(2) by (simp add: Suc_leI)
  ultimately show "index_of (pre @ X @ post) (last X) = Some (length pre + length X - 1)"
    by (simp only:)
qed

lemma select_filter:
  "\<forall>x\<in>set xs. map_of h x \<noteq> None \<Longrightarrow>
   select h (\<lambda>n. lo \<le> depth n \<and> depth n \<le> hi) xs =
     Ret (filter (\<lambda>x. lo \<le> depth_of h x \<and> depth_of h x \<le> hi) xs)"
  by (induction xs) (auto simp add: depth_of_def)

lemma listing_walks:
  "tree_inv h \<Longrightarrow> sorted_kids h \<Longrightarrow> map_of h r \<noteq> None \<Longrightarrow> walks h r (listing h r)"
  using listing_props by blast

lemma listing_unfold:
  "tree_inv h \<Longrightarrow> sorted_kids h \<Longrightarrow> map_of h r \<noteq> None \<Longrightarrow>
   listing h r = r # concat (map (listing h) (kids h r))"
  using listing_props by blast

lemma listing_set:
  "tree_inv h \<Longrightarrow> sorted_kids h \<Longrightarrow> map_of h r \<noteq> None \<Longrightarrow> set (listing h r) = below h r"
  using listing_props by blast

lemma listing_distinct:
  "tree_inv h \<Longrightarrow> sorted_kids h \<Longrightarrow> map_of h r \<noteq> None \<Longrightarrow> distinct (listing h r)"
  using listing_props by blast

lemma listing_last:
  "tree_inv h \<Longrightarrow> sorted_kids h \<Longrightarrow> map_of h r \<noteq> None \<Longrightarrow>
   last_preorder_child h r = Some (Ret (last (listing h r)))"
  using listing_props by blast

lemma depth_of_Some: "map_of h i = Some n \<Longrightarrow> depth n = depth_of h i"
  by (simp add: depth_of_def)

lemma query_root_listing:
  assumes inv: "tree_inv (nodes s)" and srt: "sorted_kids (nodes s)"
    and root: "root s = Some g" and g: "map_of (nodes s) g \<noteq> None" "par (nodes s) g = None"
    and pre: "tree_preorder s = Some (preorder s)"
    and r: "map_of (nodes s) r \<noteq> None"
  shows "query_root s a b r =
           Some (Ret (filter (\<lambda>x. a + depth_of (nodes s) r \<le> depth_of (nodes s) x \<and>
                                   depth_of (nodes s) x \<le> b + depth_of (nodes s) r)
                        (listing (nodes s) r)))"
proof -
  let ?h = "nodes s"
  let ?W = "\<lambda>n. a + depth_of ?h r \<le> depth n \<and> depth n \<le> b + depth_of ?h r"
  let ?F = "filter (\<lambda>x. a + depth_of ?h r \<le> depth_of ?h x \<and> depth_of ?h x \<le> b + depth_of ?h r)"
  from r obtain rn where rn: "map_of ?h r = Some rn"
    by auto
  note dr = depth_of_Some [OF rn]
  from g(1) have ne: "?h \<noteq> []"
    by auto
  from listing_walks [OF inv srt g(1)] have "walk_loop ?h [g] [] = Some (listing ?h g)"
    by (simp add: walks_def walk_Nil)
  with pre root ne have P: "preorder s = listing ?h g"
    by (simp add: tree_preorder_def)
  have heap: "\<forall>x\<in>set (listing ?h r). map_of ?h x \<noteq> None"
    using below_in_heap [OF r] by (simp add: listing_set [OF inv srt r])
  have sel: "select ?h ?W (listing ?h r) = Ret (?F (listing ?h r))"
    using heap by (rule select_filter)
  show ?thesis
  proof (cases "r = g")
    case True
    with rn root sel show ?thesis
      by (simp add: query_root_def dr P)
  next
    case False
    from listing_unfold [OF inv srt r]
    have X: "listing ?h r \<noteq> []" "hd (listing ?h r) = r"
      by simp_all
    from below_root [OF inv g r] listing_contains [OF inv srt]
    obtain p q where split: "listing ?h g = p @ listing ?h r @ q"
      by blast
    from listing_distinct [OF inv srt g(1)] have "distinct (p @ listing ?h r @ q)"
      by (simp only: split)
    from block_positions [OF this X(1)]
    have k: "index_of (preorder s) r = Some (length p)"
      and e: "index_of (preorder s) (last (listing ?h r)) =
          Some (length p + length (listing ?h r) - 1)"
      by (simp_all add: P split X(2))
    note lpc = listing_last [OF inv srt r]
    have "int (length p + length (listing ?h r) - 1) + 1 = int (length p + length (listing ?h r))"
      using X(1) by (cases "listing ?h r") simp_all
    then have sl: "slice (preorder s) (int (length p))
        (int (length p + length (listing ?h r) - 1) + 1) = listing ?h r"
      by (simp only: P split slice_middle)
    from False rn root k lpc e sl sel show ?thesis
      by (simp add: query_root_def dr)
  qed
qed

lemma count_list_filter_distinct:
  "distinct xs \<Longrightarrow> count_list (filter P xs) x = (if x \<in> set xs \<and> P x then 1 else 0)"
  by (induction xs) auto

lemma sum_list_indicator:
  "sum_list (map (\<lambda>r. if P r then 1 else 0) rs) = length (filter P rs)"
  by (induction rs) auto

lemma query_roots_listing:
  assumes inv: "tree_inv (nodes s)" and srt: "sorted_kids (nodes s)" and wr: "well_rooted s"
    and pre: "tree_preorder s = Some (preorder s)"
    and args: "\<not> truthy ids" "\<not> truthy names" "rs \<noteq> []"
  shows "query s ids names (Some rs) mn mx =
           Some (Ret (concat (map (\<lambda>r. filter (in_window s mn mx r) (listing (nodes s) r))
                                (filter (\<lambda>r. map_of (nodes s) r \<noteq> None) (uniq rs)))))"
proof (cases "nodes s = [] \<or> (nonzero mn \<and> nonzero mx \<and> int_or mx 0 < int_or mn 0)")
  case True
  then have q: "query s ids names (Some rs) mn mx = Some (Ret [])"
    by (auto simp add: query_def)
  have "filter (in_window s mn mx r) (listing (nodes s) r) = []"
    if "map_of (nodes s) r \<noteq> None" for r
  proof -
    from that True have "nonzero mn" "nonzero mx" "int_or mx 0 < int_or mn 0"
      by auto
    then have "int_or mx (int (length (preorder s))) < int_or mn 0"
      by (auto simp add: int_or_def nonzero_def split: option.splits)
    then show ?thesis
      by (auto simp add: in_window_def filter_empty_conv)
  qed
  then have "concat (map (\<lambda>r. filter (in_window s mn mx r) (listing (nodes s) r))
                                (filter (\<lambda>r. map_of (nodes s) r \<noteq> None) (uniq rs))) = []"
    by simp
  with q show ?thesis
    by simp
next
  case False
  let ?a = "int_or mn 0" and ?b = "int_or mx (int (length (preorder s)))"
  let ?known = "\<lambda>i. map_of (nodes s) i \<noteq> None"
  from False wr obtain g where g: "root s = Some g" "map_of (nodes s) g \<noteq> None"
    "par (nodes s) g = None"
    by (auto simp add: well_rooted_def)
  have "query s ids names (Some rs) mn mx = query_roots s ?a ?b (filter ?known (uniq rs)) []"
    using args False by (auto simp add: query_def truthy_def)
  also have "\<dots> = Some (Ret ([] @ concat (map (\<lambda>r. filter (in_window s mn mx r) (listing (nodes s) r))
      (filter ?known (uniq rs)))))"
  proof (rule query_roots_loop_appends, intro ballI)
    fix r
    assume "r \<in> set (filter ?known (uniq rs))"
    then have "?known r"
      by simp
    from query_root_listing [OF inv srt g pre this, of ?a ?b]
    show "query_root s ?a ?b r = Some (Ret (filter (in_window s mn mx r) (listing (nodes s) r)))"
      by (simp add: in_window_def [abs_def])
  qed
  finally show ?thesis
    by simp
qed

subsection \<open>The shape of reachable stores\<close>

lemma sorted_kids_add_under:
  assumes inv: "tree_inv h" and srt: "sorted_kids h" and fresh: "map_of h i = None"
    and ac: "add_child (AList.update i (Node nm) h) p i = Some (Ret True, h')"
  shows "sorted_kids h'"
    and "par h' = (par h)(i := Some p)"
    and "dom (map_of h') = insert i (dom (map_of h))"
proof -
  let ?h0 = "AList.update i (Node nm) h"
  have Pi: "par h i = None" and Ki: "kids h i = []"
    using fresh by (simp_all add: par_None kids_None)
  have notin: "i \<notin> set (kids h q)" for q
    using tree_invD(2) [OF inv, of i q] Pi by auto
  have f0: "par ?h0 = par h" "kids ?h0 = kids h"
    "name_of ?h0 = (name_of h)(i := nm)" "dom (map_of ?h0) = insert i (dom (map_of h))"
    using Pi Ki by (auto simp add: update_fields Node_def)
  note t = add_child_True [OF ac]
  show P': "par h' = (par h)(i := Some p)"
    using t(4) f0 by simp
  have N': "name_of h' = (name_of h)(i := nm)"
    using t(7) f0 by simp
  have K': "kids h' = (kids h)(p := sort_key (name_of h') (kids h p @ [i]))"
    using t(5) t(7) f0 by simp
  show "dom (map_of h') = insert i (dom (map_of h))"
    using t(8) f0 by simp
  have "sorted (map (name_of h') (kids h' q))" for q
  proof (cases "q = p")
    case True
    then show ?thesis
      by (simp add: K')
  next
    case False
    then have "map (name_of h') (kids h' q) = map (name_of h) (kids h q)"
      using notin [of q] by (simp add: K' N' map_fun_upd_notin)
    with srt show ?thesis
      by (simp add: sorted_kids_def)
  qed
  then show "sorted_kids h'"
    by (simp add: sorted_kids_def)
qed

lemma sorted_kids_delete:
  assumes inv: "tree_inv h" and srt: "sorted_kids h" and pi: "par h i = Some p"
    and rc: "remove_child h p i False = (Ret True, h1)"
  shows "sorted_kids (AList.delete i h1)"
    and "par (AList.delete i h1) = (par h)(i := None)"
    and "dom (map_of (AList.delete i h1)) = dom (map_of h) - {i}"
proof -
  note I = tree_invD [OF inv]
  note t = remove_child_True [OF rc]
  have mem: "i \<in> set (kids h p)"
    using I(1) [OF pi] .
  have Ki: "kids h i = []"
    using t(2) by simp
  have p_ne: "p \<noteq> i"
    using mem Ki by auto
  have dist: "distinct (kids h p)"
    using I(3) [of p] by (simp add: distinct_map)
  let ?h' = "AList.delete i h1"
  have K1: "kids h1 = (kids h)(p := remove1 i (kids h p))"
    by (rule remove_child_listed [OF I(3) mem rc])
  show "par ?h' = (par h)(i := None)"
    by (simp add: delete_fields t(6))
  have K': "kids ?h' = (kids h)(p := remove1 i (kids h p), i := [])"
    by (simp add: delete_fields K1)
  have N': "name_of ?h' = (name_of h)(i := [])"
    by (simp add: delete_fields t(7))
  show "dom (map_of ?h') = dom (map_of h) - {i}"
    by (simp add: delete_fields t(8))
  have "sorted (map (name_of ?h') (kids ?h' q))" for q
  proof -
    have s0: "sorted (map (name_of h) (kids h q))" and sp: "sorted (map (name_of h) (kids h p))"
      using srt by (simp_all add: sorted_kids_def)
    have notin: "i \<notin> set (kids ?h' q)"
    proof (cases "q = p")
      case True
      then show ?thesis
        using p_ne by (simp add: K' set_remove1_eq [OF dist])
    next
      case False
      have "i \<notin> set (kids h q)"
        using I(2) [of i q] pi False by auto
      with False show ?thesis
        by (simp add: K')
    qed
    then have eq: "map (name_of ?h') (kids ?h' q) = map (name_of h) (kids ?h' q)"
      by (simp add: N' map_fun_upd_notin)
    have "sorted (map (name_of h) (kids ?h' q))"
      using s0 sp by (auto simp add: K' sorted_map_remove1)
    then show ?thesis
      unfolding eq .
  qed
  then show "sorted_kids ?h'"
    by (simp add: sorted_kids_def)
qed

lemma sorted_kids_move:
  assumes inv: "tree_inv h" and srt: "sorted_kids h" and pi: "par h i = Some old_parent"
    and ne: "old_parent \<noteq> to"
    and ac: "add_child h to i = Some (Ret True, h1)"
    and rc: "remove_child h1 old_parent i True = (Ret b, h2)"
  shows "sorted_kids h2"
proof -
  note I = tree_invD [OF inv]
  note t = add_child_True [OF ac]
  have mem: "i \<in> set (kids h old_parent)"
    using I(1) [OF pi] .
  have K1o: "kids h1 old_parent = kids h old_parent"
    and KB1o: "kids_by_id h1 old_parent = kids_by_id h old_parent"
    using ne by (simp_all add: t(5) t(6))
  have b: "b"
  proof (rule ccontr)
    assume "\<not> b"
    with rc have "remove_child h1 old_parent i True = (Ret False, h2)"
      by simp
    from remove_child_False_cases [OF this] show False
      using mem I(4) [of old_parent] by (simp add: KB1o)
  qed
  with rc have rc': "remove_child h1 old_parent i True = (Ret True, h2)"
    by simp
  note r = remove_child_True [OF rc']
  have "kids h2 = (kids h1)(old_parent := remove1 i (kids h1 old_parent))"
    using I(3) [of old_parent] mem
    by (intro remove_child_listed [OF _ _ rc']) (simp_all add: K1o t(7))
  then have K': "kids h2 = (kids h)(to := sort_key (name_of h) (kids h to @ [i]),
                                   old_parent := remove1 i (kids h old_parent))"
    using ne by (simp add: t(5))
  have N': "name_of h2 = name_of h"
    by (simp add: r(7) t(7))
  have "sorted (map (name_of h2) (kids h2 q))" for q
    using srt by (auto simp add: K' N' sorted_kids_def sorted_map_remove1 simp del: map_append)
  then show ?thesis
    by (simp add: sorted_kids_def)
qed

lemma sorted_kids_Nil: "sorted_kids []"
  by (simp add: sorted_kids_def kids_def)

lemma sorted_kids_single: "sorted_kids [(i, Node nm)]"
  by (simp add: sorted_kids_def kids_def Node_def)

lemma well_rooted_same_root:
  assumes wr: "well_rooted s" and root: "root s' = root s"
    and keep: "\<And>g. map_of (nodes s) g \<noteq> None \<Longrightarrow> par (nodes s) g = None \<Longrightarrow>
                 map_of (nodes s') g \<noteq> None \<and> par (nodes s') g = None"
    and ne: "nodes s \<noteq> []"
  shows "well_rooted s'"
  using wr ne keep unfolding well_rooted_def root by blast

lemma shape_inv_add:
  assumes inv: "shape_inv s" and op: "add s node pa = Some (Ret b, s')"
  shows "shape_inv s'"
proof -
  from inv have si: "store_inv s" and srt: "sorted_kids (nodes s)" and wr: "well_rooted s"
    by (simp_all add: shape_inv_def)
  from si have ti: "tree_inv (nodes s)"
    by (simp add: store_inv_def)
  note si' = store_inv_add [OF si op]
  show ?thesis
  proof (cases node)
    case None
    with op inv show ?thesis
      by (simp add: add_def)
  next
    case (Some a)
    obtain i nm where a: "a = (i, nm)"
      by (cases a)
    show ?thesis
    proof (cases "map_of (nodes s) i = None")
      case False
      with op inv Some a show ?thesis
        by (auto simp add: add_def)
    next
      case fresh: True
      from op Some a fresh
      consider (root) "add_root s i nm = Some (Ret b, s')"
        | (under) p where "add_under s i nm p = Some (Ret b, s')"
        by (auto simp add: add_def split: option.splits if_splits)
      then show ?thesis
      proof cases
        case root
        show ?thesis
        proof (cases "nodes s = []")
          case True
          from root add_root_empty [OF True, of i nm]
          have s': "s' = s\<lparr>nodes := [(i, Node nm)], root := Some i, preorder := preorder s @ [i]\<rparr>"
            by simp
          have "well_rooted s'"
            by (simp add: s' well_rooted_def par_def Node_def)
          with si' show ?thesis
            by (simp add: shape_inv_def s' sorted_kids_single)
        next
          case False
          from root add_root_nonempty [OF False, of i nm] inv show ?thesis
            by simp
        qed
      next
        case under
        from add_under_cases [OF under] show ?thesis
        proof (elim disjE conjE exE)
          assume "s' = s"
          with inv show ?thesis by simp
        next
          fix h pre
          assume p: "map_of (nodes s) p \<noteq> None"
            and ac: "add_child (AList.update i (Node nm) (nodes s)) p i = Some (Ret True, h)"
            and s': "s' = s\<lparr>nodes := h, preorder := pre\<rparr>"
          note e = sorted_kids_add_under [OF ti srt fresh ac]
          have "well_rooted s'"
          proof (rule well_rooted_same_root [OF wr])
            show "root s' = root s"
              by (simp add: s')
            show "nodes s \<noteq> []"
              using p by auto
            fix g
            assume "map_of (nodes s) g \<noteq> None" "par (nodes s) g = None"
            moreover from this fresh have "g \<noteq> i"
              by auto
            ultimately show "map_of (nodes s') g \<noteq> None \<and> par (nodes s') g = None"
              using e(3) by (auto simp add: s' e(2))
          qed
          with si' e(1) show ?thesis
            by (simp add: shape_inv_def s')
        qed
      qed
    qed
  qed
qed

lemma shape_inv_delete:
  assumes inv: "shape_inv s" and op: "delete s i = (Ret b, s')"
  shows "shape_inv s'"
proof -
  from inv have si: "store_inv s" and srt: "sorted_kids (nodes s)" and wr: "well_rooted s"
    by (simp_all add: shape_inv_def)
  from si have ti: "tree_inv (nodes s)"
    by (simp add: store_inv_def)
  note si' = store_inv_delete [OF si op]
  from delete_cases [OF op] show ?thesis
  proof (elim disjE conjE exE)
    assume "s' = s"
    with inv show ?thesis by simp
  next
    fix p h pre
    assume pi: "par (nodes s) i = Some p"
      and rc: "remove_child (nodes s) p i False = (Ret True, h)"
      and s': "s' = s\<lparr>nodes := AList.delete i h, preorder := pre\<rparr>"
    note e = sorted_kids_delete [OF ti srt pi rc]
    have "well_rooted s'"
    proof (rule well_rooted_same_root [OF wr])
      show "root s' = root s"
        by (simp add: s')
      show "nodes s \<noteq> []"
        using par_Some_dom [OF pi] by auto
      fix g
      assume g: "map_of (nodes s) g \<noteq> None" "par (nodes s) g = None"
      with pi have gi: "g \<noteq> i"
        by auto
      from g(1) have "g \<in> dom (map_of (nodes s))"
        by auto
      with gi e(3) have "g \<in> dom (map_of (nodes s'))"
        by (simp add: s')
      then have "map_of (nodes s') g \<noteq> None"
        by auto
      moreover from g(2) gi have "par (nodes s') g = None"
        by (simp add: s' e(2))
      ultimately show "map_of (nodes s') g \<noteq> None \<and> par (nodes s') g = None"
        by simp
    qed
    with si' e(1) show ?thesis
      by (simp add: shape_inv_def s')
  next
    assume "s' = s\<lparr>nodes := [], preorder := []\<rparr>"
    with si' show ?thesis
      by (simp add: shape_inv_def sorted_kids_Nil well_rooted_def)
  qed
qed

lemma shape_inv_move:
  assumes inv: "shape_inv s" and op: "move s i to = Some (Ret b, s')"
  shows "shape_inv s'"
proof -
  from inv have si: "store_inv s" and srt: "sorted_kids (nodes s)" and wr: "well_rooted s"
    by (simp_all add: shape_inv_def)
  from si have ti: "tree_inv (nodes s)"
    by (simp add: store_inv_def)
  note si' = store_inv_move [OF si op]
  from move_cases [OF op] show ?thesis
  proof (elim disjE conjE exE)
    assume "s' = s"
    with inv show ?thesis by simp
  next
    fix tn old_parent h1 h2 b' pre
    assume to: "map_of (nodes s) to = Some tn"
      and pi: "par (nodes s) i = Some old_parent" and po: "old_parent \<noteq> to"
      and ac: "add_child (nodes s) to i = Some (Ret True, h1)"
      and rc: "remove_child h1 old_parent i True = (Ret b', h2)"
      and s': "s' = s\<lparr>nodes := h2, preorder := pre\<rparr>"
    have srt': "sorted_kids h2"
      using ti srt pi po ac rc by (rule sorted_kids_move)
    note m = move_par [OF op]
    have "well_rooted s'"
    proof (rule well_rooted_same_root [OF wr])
      show "root s' = root s"
        by (simp add: s')
      show "nodes s \<noteq> []"
        using to by auto
      fix g
      assume g: "map_of (nodes s) g \<noteq> None" "par (nodes s) g = None"
      with pi have "g \<noteq> i"
        by auto
      with m(2) g(2) have "par (nodes s') g = None"
        by auto
      moreover from g(1) m(1) have "map_of (nodes s') g \<noteq> None"
        by (metis domIff)
      ultimately show "map_of (nodes s') g \<noteq> None \<and> par (nodes s') g = None"
        by simp
    qed
    with si' srt' show ?thesis
      by (simp add: shape_inv_def s')
  qed
qed

lemma shape_inv_run: "shape_inv s \<Longrightarrow> run s ops = Some s' \<Longrightarrow> shape_inv s'"
proof (induction ops arbitrary: s)
  case Nil
  then show ?case by simp
next
  case (Cons x xs)
  from Cons.prems(2) obtain b s1 where step: "apply_op s x = Some (Ret b, s1)"
    and rest: "run s1 xs = Some s'"
    by (auto split: option.splits res.splits prod.splits)
  from step Cons.prems(1) have "shape_inv s1"
    by (cases x) (auto simp add: apply_op_def intro: shape_inv_add shape_inv_delete shape_inv_move)
  with rest show ?case
    by (rule Cons.IH [rotated])
qed

lemma reachable_shape_inv: "reachable s \<Longrightarrow> shape_inv s"
proof -
  have "sorted_kids (nodes Storage)" and "well_rooted Storage"
    by (simp_all add: Storage_def sorted_kids_Nil well_rooted_def)
  with store_inv_Storage have "shape_inv Storage"
    by (simp add: shape_inv_def)
  then show "reachable s \<Longrightarrow> shape_inv s"
    unfolding reachable_def using shape_inv_run by blast
qed

subsection \<open>Nodes below several requested roots\<close>

lemma count_list_concat_map:
  "count_list (concat (map F rs)) x = sum_list (map (\<lambda>r. count_list (F r) x) rs)"
  by (induction rs) simp_all

lemma sum_list_indicator_filter:
  "\<forall>r\<in>set rs. known r \<longrightarrow> f r = (if Q r then 1 else (0::nat)) \<Longrightarrow>
   sum_list (map f (filter known rs)) = length (filter (\<lambda>r. known r \<and> Q r) rs)"
  by (induction rs) simp_all

text \<open>
  C10 (as amended).  Take a reachable store whose cached pre-order list is the pre-order
  listing of its tree, and a query by roots (no \<^verbatim>\<open>ids\<close>, no \<^verbatim>\<open>names\<close>, a non-empty list of
  roots).  The query returns, for the stored roots of the list in the caller's order of first
  occurrences, the pre-order listing of the subtree of each root, restricted to the nodes
  whose cached depth lies in the depth window taken relative to that root, one listing after
  the other and with nothing removed across roots.  The listing of a subtree holds each node
  at or below its root exactly once.  So a node appears in the result once for each
  requested root that it lies at or below and whose window holds its depth: a node in two
  requested subtrees is listed twice when both windows hold it, and not otherwise.  In the
  store \<open>block_store\<close> the roots \<open>1\<close> and \<open>3\<close> without depth bounds give
  \<open>1, 2, 3, 4, 3, 4\<close>, where \<open>4\<close> lies below both roots and is listed twice.
\<close>

theorem query_roots_subtrees:
  assumes "reachable s" and "tree_preorder s = Some (preorder s)"
    and "\<not> truthy ids" and "\<not> truthy names" and "rs \<noteq> []"
  shows "query s ids names (Some rs) mn mx =
           Some (Ret (concat (map (\<lambda>r. filter (in_window s mn mx r) (listing (nodes s) r))
                                (filter (\<lambda>r. map_of (nodes s) r \<noteq> None) (uniq rs))))) \<and>
         (\<forall>r. map_of (nodes s) r \<noteq> None \<longrightarrow>
            distinct (listing (nodes s) r) \<and>
            set (listing (nodes s) r) = {x. (x, r) \<in> (parent_rel (nodes s))\<^sup>*}) \<and>
         (\<forall>res x. query s ids names (Some rs) mn mx = Some (Ret res) \<longrightarrow>
            count_list res x =
              length (filter (\<lambda>r. map_of (nodes s) r \<noteq> None \<and>
                                   (x, r) \<in> (parent_rel (nodes s))\<^sup>* \<and> in_window s mn mx r x)
                        (uniq rs)))"
proof -
  let ?h = "nodes s"
  let ?known = "\<lambda>r. map_of ?h r \<noteq> None"
  let ?F = "\<lambda>r. filter (in_window s mn mx r) (listing ?h r)"
  from reachable_shape_inv [OF assms(1)]
  have inv: "tree_inv ?h" and srt: "sorted_kids ?h" and wr: "well_rooted s"
    by (simp_all add: shape_inv_def store_inv_def)
  have q: "query s ids names (Some rs) mn mx = Some (Ret (concat (map ?F (filter ?known (uniq rs)))))"
    by (rule query_roots_listing [OF inv srt wr assms(2-5)])
  have sub: "distinct (listing ?h r) \<and> set (listing ?h r) = {x. (x, r) \<in> (parent_rel ?h)\<^sup>*}"
    if "?known r" for r
    using listing_distinct [OF inv srt that] listing_set [OF inv srt that]
    by (simp add: below_def)
  have cnt: "count_list (concat (map ?F (filter ?known (uniq rs)))) x =
      length (filter (\<lambda>r. ?known r \<and> (x, r) \<in> (parent_rel ?h)\<^sup>* \<and> in_window s mn mx r x) (uniq rs))"
    for x
  proof -
    have "count_list (?F r) x = (if (x, r) \<in> (parent_rel ?h)\<^sup>* \<and> in_window s mn mx r x then 1 else 0)"
      if "?known r" for r
      using sub [OF that] by (simp add: count_list_filter_distinct)
    then have "sum_list (map (\<lambda>r. count_list (?F r) x) (filter ?known (uniq rs))) =
        length (filter (\<lambda>r. ?known r \<and> ((x, r) \<in> (parent_rel ?h)\<^sup>* \<and> in_window s mn mx r x))
          (uniq rs))"
      by (intro sum_list_indicator_filter) simp
    then show ?thesis
      by (simp only: count_list_concat_map)
  qed
  from q sub cnt show ?thesis
    by simp
qed

theorem query_roots_subtrees_witness:
  "reachable block_store \<and> tree_preorder block_store = Some (preorder block_store) \<and>
   query block_store None None (Some [''1'', ''3'']) None None =
     Some (Ret [''1'', ''2'', ''3'', ''4'', ''3'', ''4'']) \<and>
   set (listing (nodes block_store) ''3'') =
     {x. (x, ''3'') \<in> (parent_rel (nodes block_store))\<^sup>*} \<and>
   length (filter (\<lambda>r. map_of (nodes block_store) r \<noteq> None \<and>
                        (''4'', r) \<in> (parent_rel (nodes block_store))\<^sup>* \<and>
                        in_window block_store None None r ''4'')
             (uniq [''1'', ''3''])) = 2"
proof -
  have pre: "tree_preorder block_store = Some (preorder block_store)"
    by code_simp
  have a: "\<not> truthy (None :: nid list option)"
    by (simp add: truthy_def)
  have b: "[''1'', ''3''] \<noteq> ([] :: nid list)"
    by simp
  note t = query_roots_subtrees [OF block_store_reachable pre a a b, of None None]
  have ev: "concat (map (\<lambda>r. filter (in_window block_store None None r) (listing (nodes block_store) r))
                      (filter (\<lambda>r. map_of (nodes block_store) r \<noteq> None) (uniq [''1'', ''3'']))) =
            [''1'', ''2'', ''3'', ''4'', ''3'', ''4'']"
    by code_simp
  from t ev have q: "query block_store None None (Some [''1'', ''3'']) None None =
     Some (Ret [''1'', ''2'', ''3'', ''4'', ''3'', ''4''])"
    by simp
  have known: "map_of (nodes block_store) ''3'' \<noteq> None"
    by (simp add: block_store_def)
  with t have sub: "set (listing (nodes block_store) ''3'') =
     {x. (x, ''3'') \<in> (parent_rel (nodes block_store))\<^sup>*}"
    by blast
  from t q have "count_list [''1'', ''2'', ''3'', ''4'', ''3'', ''4''] ''4'' =
      length (filter (\<lambda>r. map_of (nodes block_store) r \<noteq> None \<and>
                        (''4'', r) \<in> (parent_rel (nodes block_store))\<^sup>* \<and>
                        in_window block_store None None r ''4'')
             (uniq [''1'', ''3'']))"
    by blast
  then have cnt: "length (filter (\<lambda>r. map_of (nodes block_store) r \<noteq> None \<and>
                        (''4'', r) \<in> (parent_rel (nodes block_store))\<^sup>* \<and>
                        in_window block_store None None r ''4'')
             (uniq [''1'', ''3''])) = 2"
    by simp
  from block_store_reachable pre q sub cnt show ?thesis
    by blast
qed

text \<open>A node of two requested subtrees is not always listed twice.  In \<open>block_store\<close> the
  node \<open>4\<close> lies below \<open>3\<close> and below \<open>1\<close>; with \<^verbatim>\<open>min_depth = max_depth = 1\<close> the roots \<open>3\<close>
  and \<open>1\<close> give \<open>4\<close> and \<open>2, 3\<close>, so the node is listed once: the window of the root \<open>1\<close>
  leaves it out.\<close>

theorem query_roots_window_counterexample:
  "par (nodes block_store) ''4'' = Some ''3'' \<and> par (nodes block_store) ''3'' = Some ''1'' \<and>
   query block_store None None (Some [''3'', ''1'']) (Some 1) (Some 1) =
     Some (Ret [''4'', ''2'', ''3''])"
  by code_simp

text \<open>The agreement of the cached list with the tree cannot be dropped.  Moving the leaf
  \<open>2\<close> of \<open>block_store\<close> below \<open>3\<close> leaves the cached list \<open>1, 3, 4, 2\<close> for the tree
  \<open>1, 3, 2, 4\<close>; the root \<open>3\<close> then selects the slice \<open>3, 4\<close>, and the roots \<open>1\<close> and \<open>3\<close>
  give \<open>1, 3, 4, 2, 3, 4\<close>, where \<open>2\<close> lies below both roots and is listed once.\<close>

lemma query_roots_after_misplaced_move:
  "map_option (\<lambda>(r, s). (r, par (nodes s) ''2'', preorder s, tree_preorder s,
                           query s None None (Some [''1'', ''3'']) None None))
     (move block_store ''2'' ''3'') =
   Some (Ret True, Some ''3'', [''1'', ''3'', ''4'', ''2''], Some [''1'', ''3'', ''2'', ''4''],
         Some (Ret [''1'', ''3'', ''4'', ''2'', ''3'', ''4'']))"
  by code_simp

end
